theory Spec2Isabelle
  imports Main "HOL-Library.Char_ord" "HOL-Library.List_Lexorder" "HOL-Library.Multiset"
begin

section \<open>JavaScript values used by the scheduler\<close>

text \<open>
  Strings are \<open>string\<close> (lists of 8-bit characters; the default sort of JavaScript compares
  code units, which on such strings is the lexicographic order of \<open>char list\<close>).

  A JavaScript number is modelled as \<open>int option\<close>: \<open>Some i\<close> is the integer \<open>i\<close>, and
  \<open>None\<close> is \<open>NaN\<close>. A numeric room field that is absent (\<open>undefined\<close>) is \<open>None\<close> as
  well: \<open>undefined * k\<close> and \<open>undefined + k\<close> are \<open>NaN\<close>, every comparison with
  \<open>undefined\<close> or \<open>NaN\<close> is false, and both are falsy in \<open>x || 2\<close>. So a room field
  is an integer, \<open>NaN\<close> or absent. Every other value is outside the model: \<open>null\<close> and
  strings are coerced by \<open>*\<close> and by the comparisons (\<open>null * 2\<close> is \<open>0\<close>, \<open>'2' * 2\<close>
  is \<open>4\<close>) but not by \<open>||\<close> and \<open>===\<close>, and nothing here speaks about them.

  The integers are exact, whereas the numbers of the code are doubles. The two agree on
  the integers of absolute value at most \<open>2^53 - 1 = 9007199254740991\<close>, where sums,
  products and comparisons are exact and a number is printed with all its digits.
  Fractions, infinities and integers beyond that bound are outside the model: room
  dimensions and seeds are taken to be integers within it, and the statement about the
  numbers read from rolls carries the bound as a hypothesis.
\<close>

type_synonym jsnum = "int option"

definition js_mul :: "jsnum \<Rightarrow> jsnum \<Rightarrow> jsnum" where
  "js_mul a b = (case a of None \<Rightarrow> None | Some x \<Rightarrow> (case b of None \<Rightarrow> None | Some y \<Rightarrow> Some (x * y)))"

definition js_add :: "jsnum \<Rightarrow> jsnum \<Rightarrow> jsnum" where
  "js_add a b = (case a of None \<Rightarrow> None | Some x \<Rightarrow> (case b of None \<Rightarrow> None | Some y \<Rightarrow> Some (x + y)))"

definition js_lt :: "jsnum \<Rightarrow> jsnum \<Rightarrow> bool" where
  "js_lt a b = (case a of None \<Rightarrow> False | Some x \<Rightarrow> (case b of None \<Rightarrow> False | Some y \<Rightarrow> x < y))"

definition js_gt :: "jsnum \<Rightarrow> jsnum \<Rightarrow> bool" where
  "js_gt a b = js_lt b a"

definition js_ge :: "jsnum \<Rightarrow> jsnum \<Rightarrow> bool" where
  "js_ge a b = (case a of None \<Rightarrow> False | Some x \<Rightarrow> (case b of None \<Rightarrow> False | Some y \<Rightarrow> y \<le> x))"

definition js_seq :: "jsnum \<Rightarrow> jsnum \<Rightarrow> bool" where
  \<comment> \<open>strict equality \<open>===\<close> of numbers: \<open>NaN\<close> equals nothing\<close>
  "js_seq a b = (case a of None \<Rightarrow> False | Some x \<Rightarrow> (case b of None \<Rightarrow> False | Some y \<Rightarrow> x = y))"

text \<open>
  Number to string, as a template literal does it for \<open>NaN\<close> and for an integer below
  \<open>10^21\<close> (from there on the code prints an exponent).
\<close>

definition digit_char :: "nat \<Rightarrow> char" where
  "digit_char d = char_of (48 + d)"

fun show_nat :: "nat \<Rightarrow> string" where
  "show_nat n = (if n < 10 then [digit_char n] else show_nat (n div 10) @ [digit_char (n mod 10)])"

declare show_nat.simps [simp del]

definition show_int :: "int \<Rightarrow> string" where
  "show_int i = (if i < 0 then CHR ''-'' # show_nat (nat (- i)) else show_nat (nat i))"

definition show_num :: "jsnum \<Rightarrow> string" where
  "show_num a = (case a of None \<Rightarrow> ''NaN'' | Some i \<Rightarrow> show_int i)"

definition is_digit :: "char \<Rightarrow> bool" where
  "is_digit c = (c \<in> set ''0123456789'')"

definition digit_val :: "char \<Rightarrow> nat" where
  "digit_val c = of_char c - 48"

definition dec_val :: "string \<Rightarrow> nat" where
  "dec_val ds = foldl (\<lambda>a c. 10 * a + digit_val c) 0 ds"

text \<open>
  What a call can do besides returning: throw a \<open>TypeError\<close>, or not return at all
  (a \<open>while\<close> loop that never ends).
\<close>

datatype 'a outcome = Returns 'a | TypeError | Diverges

subsection \<open>Plain objects used as dictionaries\<close>

text \<open>
  \<open>Object.keys\<close> lists the keys that are array indices (canonical decimal numerals below
  \<open>2^32 - 1\<close>) first, in ascending numeric order, then the other keys in insertion order.
  An object is the association list in that order.
\<close>

type_synonym 'v obj = "(string \<times> 'v) list"

definition is_array_index :: "string \<Rightarrow> bool" where
  "is_array_index k = (k \<noteq> [] \<and> list_all is_digit k \<and> (k = ''0'' \<or> hd k \<noteq> CHR ''0'')
      \<and> dec_val k < 4294967295)"

definition obj_get :: "'v obj \<Rightarrow> string \<Rightarrow> 'v option" where
  "obj_get ob k = map_of ob k"

fun obj_insert :: "string \<Rightarrow> 'v \<Rightarrow> 'v obj \<Rightarrow> 'v obj" where
  "obj_insert k v [] = [(k, v)]"
| "obj_insert k v ((k', v') # rest) =
     (if is_array_index k \<and> (\<not> is_array_index k' \<or> dec_val k < dec_val k')
      then (k, v) # (k', v') # rest
      else (k', v') # obj_insert k v rest)"

definition obj_set :: "'v obj \<Rightarrow> string \<Rightarrow> 'v \<Rightarrow> 'v obj" where
  "obj_set ob k v =
     (if k \<in> fst ` set ob then map (\<lambda>(k', v'). if k' = k then (k', v) else (k', v')) ob
      else obj_insert k v ob)"

definition obj_delete :: "'v obj \<Rightarrow> string \<Rightarrow> 'v obj" where
  "obj_delete ob k = filter (\<lambda>(k', v'). k' \<noteq> k) ob"

definition Object_keys :: "'v obj \<Rightarrow> string list" where
  "Object_keys ob = map fst ob"

text \<open>
  A fresh object \<open>{}\<close> inherits the properties of \<open>Object.prototype\<close>. For such a key
  \<open>k\<close>, \<open>!groups[k]\<close> is false (the inherited value is a function or an object) and
  \<open>groups[k].push(x)\<close> throws a \<open>TypeError\<close>.
\<close>

definition proto_keys :: "string list" where
  "proto_keys = [''constructor'', ''__defineGetter__'', ''__defineSetter__'',
     ''hasOwnProperty'', ''__lookupGetter__'', ''__lookupSetter__'', ''isPrototypeOf'',
     ''propertyIsEnumerable'', ''toString'', ''valueOf'', ''__proto__'', ''toLocaleString'']"

text \<open>
  The idiom \<open>xs.forEach(x => { if (!g[key(x)]) g[key(x)] = []; g[key(x)].push(val(x)); })\<close>.
\<close>

fun group_into :: "('a \<Rightarrow> string) \<Rightarrow> ('a \<Rightarrow> 'v) \<Rightarrow> 'a list \<Rightarrow> 'v list obj \<Rightarrow> 'v list obj outcome" where
  "group_into key val [] g = Returns g"
| "group_into key val (x # xs) g =
     (if key x \<in> set proto_keys then TypeError
      else (case obj_get g (key x) of
              None \<Rightarrow> group_into key val xs (obj_set g (key x) [val x])
            | Some vs \<Rightarrow> group_into key val xs (obj_set g (key x) (vs @ [val x]))))"

section \<open>Data model\<close>

record student =
  roll :: string
  name :: string
  subject :: string
  preferred_room :: "string option"

record room =
  room_id :: string
  room_name :: string
  num_benches :: jsnum
  seats_per_bench :: jsnum

record assignment =
  a_room_id :: string
  a_room_name :: string
  bench_number :: nat
  position :: string
  a_student :: student

datatype conflict_type = Validation | Infeasible | Constraint | Overflow

record conflict =
  c_type :: conflict_type
  c_room :: "string option"
  c_bench_number :: "nat option"
  message :: string

record diagnostics =
  feasible :: bool
  conflicts :: "conflict list"
  suggestions :: "string list"

record subject_summary =
  ss_subject :: string
  ss_count :: nat
  ranges :: string

record room_summary =
  s_room_id :: string
  s_room_name :: string
  total :: nat
  subjects :: "subject_summary list"
  subject_counts :: "nat obj"

record sched_result =
  success :: bool
  assignments :: "assignment list"
  diags :: diagnostics
  room_summaries :: "room_summary list"

section \<open>Room distribution\<close>

record room_assignment =
  ra_room :: room
  ra_students :: "student list"
  ra_capacity :: jsnum

definition capacity_of :: "room \<Rightarrow> jsnum" where
  "capacity_of r = js_mul (num_benches r) (seats_per_bench r)"

definition totalCapacity :: "room list \<Rightarrow> jsnum" where
  "totalCapacity rooms = foldl (\<lambda>sum r. js_add sum (capacity_of r)) (Some 0) rooms"

definition init_roomAssignments :: "room list \<Rightarrow> room_assignment list" where
  "init_roomAssignments rooms =
     map (\<lambda>r. \<lparr>ra_room = r, ra_students = [], ra_capacity = capacity_of r\<rparr>) rooms"

fun find_idx :: "('a \<Rightarrow> bool) \<Rightarrow> 'a list \<Rightarrow> nat option" where
  "find_idx P [] = None"
| "find_idx P (x # xs) = (if P x then Some 0 else map_option Suc (find_idx P xs))"

definition matches_room :: "string \<Rightarrow> room_assignment \<Rightarrow> bool" where
  "matches_room p ra = (room_name (ra_room ra) = p \<or> room_id (ra_room ra) = p)"

definition push_student :: "room_assignment list \<Rightarrow> nat \<Rightarrow> student \<Rightarrow> room_assignment list" where
  "push_student ras i s = ras[i := (ras ! i)\<lparr>ra_students := ra_students (ras ! i) @ [s]\<rparr>]"

definition has_room_left :: "room_assignment \<Rightarrow> bool" where
  \<comment> \<open>\<open>ra.students.length < ra.capacity\<close>\<close>
  "has_room_left ra = js_lt (Some (int (length (ra_students ra)))) (ra_capacity ra)"

definition ra_full :: "room_assignment \<Rightarrow> bool" where
  \<comment> \<open>\<open>ra.students.length >= ra.capacity\<close>\<close>
  "ra_full ra = js_ge (Some (int (length (ra_students ra)))) (ra_capacity ra)"

text \<open>
  The preferred-room pass: \<open>students.forEach\<close> over the student list, in list order. A
  preference is honoured when it is a non-empty string, \<open>find\<close> returns a room (the first
  one whose name or id equals it) and that room has room left.
\<close>

fun preferred_pass ::
  "student list \<Rightarrow> room_assignment list \<Rightarrow> student list \<Rightarrow> room_assignment list \<times> student list" where
  "preferred_pass [] ras unassignedStudents = (ras, unassignedStudents)"
| "preferred_pass (s # ss) ras unassignedStudents =
     (case preferred_room s of
        None \<Rightarrow> preferred_pass ss ras (unassignedStudents @ [s])
      | Some p \<Rightarrow>
          if p = [] then preferred_pass ss ras (unassignedStudents @ [s])
          else (case find_idx (matches_room p) ras of
                  None \<Rightarrow> preferred_pass ss ras (unassignedStudents @ [s])
                | Some i \<Rightarrow>
                    if has_room_left (ras ! i) then preferred_pass ss (push_student ras i s) unassignedStudents
                    else preferred_pass ss ras (unassignedStudents @ [s])))"

text \<open>
  The round-robin pass. The inner \<open>while\<close> loop advances \<open>roomIdx\<close> cyclically past full
  rooms; it need not end, so it is a partial function and \<open>None\<close> means that it runs
  forever. With no room at all, \<open>roomAssignments[0]\<close> is \<open>undefined\<close> and reading its
  \<open>students\<close> throws. Otherwise \<open>roomIdx\<close> stays below the number of rooms.
\<close>

partial_function (option) skip_full :: "room_assignment list \<Rightarrow> nat \<Rightarrow> nat option" where
  "skip_full ras roomIdx =
     (if ra_full (ras ! roomIdx) then skip_full ras ((roomIdx + 1) mod length ras)
      else Some roomIdx)"

declare skip_full.simps [code]

fun round_robin ::
  "student list \<Rightarrow> room_assignment list \<Rightarrow> nat \<Rightarrow> room_assignment list outcome" where
  "round_robin [] ras roomIdx = Returns ras"
| "round_robin (s # ss) ras roomIdx =
     (if ras = [] then TypeError
      else (case skip_full ras roomIdx of
              None \<Rightarrow> Diverges
            | Some i \<Rightarrow> round_robin ss (push_student ras i s) ((i + 1) mod length ras)))"

definition distribute :: "student list \<Rightarrow> room list \<Rightarrow> room_assignment list outcome" where
  "distribute students rooms =
     (case preferred_pass students (init_roomAssignments rooms) [] of
        (ras, unassignedStudents) \<Rightarrow> round_robin unassignedStudents ras 0)"

section \<open>Seat assignment within a room\<close>

record seat_state =
  st_groups :: "student list obj"
  st_remaining :: nat
  st_assignments :: "assignment list"
  st_conflicts :: "conflict list"

definition group_of :: "'v list obj \<Rightarrow> string \<Rightarrow> 'v list" where
  \<comment> \<open>the array stored under a key that the object has\<close>
  "group_of g k = (case obj_get g k of None \<Rightarrow> [] | Some xs \<Rightarrow> xs)"

definition group_len :: "'v list obj \<Rightarrow> string \<Rightarrow> nat" where
  "group_len g k = (case obj_get g k of None \<Rightarrow> 0 | Some xs \<Rightarrow> length xs)"

definition getSortedSubjects :: "student list obj \<Rightarrow> string list" where
  \<comment> \<open>the array sort is stable; the comparator orders by descending group size\<close>
  "getSortedSubjects g =
     sort_key (\<lambda>k. - int (group_len g k)) (filter (\<lambda>k. group_len g k > 0) (Object_keys g))"

definition position_label :: "int \<Rightarrow> nat \<Rightarrow> string" where
  "position_label seatsPerBench seatIdx =
     (if seatsPerBench = 2 \<and> seatIdx < 2 then [''left'', ''right''] ! seatIdx
      else ''seat_'' @ show_nat (seatIdx + 1))"

definition constraint_conflict :: "room \<Rightarrow> nat \<Rightarrow> student \<Rightarrow> conflict" where
  "constraint_conflict room benchIdx stud =
     \<lparr>c_type = Constraint, c_room = Some (room_name room), c_bench_number = Some (benchIdx + 1),
      message = ''Had to seat two '' @ subject stud @ '' students on bench ''
         @ show_nat (benchIdx + 1) @ '' in '' @ room_name room\<rparr>"

definition overflow_conflict :: "room \<Rightarrow> conflict" where
  "overflow_conflict room =
     \<lparr>c_type = Overflow, c_room = Some (room_name room), c_bench_number = None,
      message = ''Not enough benches in '' @ room_name room\<rparr>"

text \<open>
  One pass of the body of the seat loop, after \<open>availableSubjects\<close> was found non-empty.
  \<open>!chosenSubject\<close> holds when \<open>find\<close> returned \<open>undefined\<close> and also when it returned the
  empty string. The chosen subject is a key of the groups with a non-empty array (it comes
  from \<open>getSortedSubjects\<close>), so \<open>pop\<close> returns the last student of that array.
\<close>

definition seat_step ::
  "room \<Rightarrow> int \<Rightarrow> nat \<Rightarrow> nat \<Rightarrow> string set \<Rightarrow> string list \<Rightarrow> seat_state \<Rightarrow> string set \<times> seat_state" where
  "seat_step room seatsPerBench benchIdx seatIdx benchSubjects availableSubjects st =
     (let found = find (\<lambda>subject. subject \<notin> benchSubjects) availableSubjects;
          respectedConstraint = (case found of None \<Rightarrow> False | Some c \<Rightarrow> c \<noteq> []);
          chosenSubject = (case found of None \<Rightarrow> hd availableSubjects
                           | Some c \<Rightarrow> if c \<noteq> [] then c else hd availableSubjects);
          grp = group_of (st_groups st) chosenSubject;
          stud = last grp;
          groups' = (if butlast grp = [] then obj_delete (st_groups st) chosenSubject
                     else obj_set (st_groups st) chosenSubject (butlast grp));
          a = \<lparr>a_room_id = room_id room, a_room_name = room_name room,
               bench_number = benchIdx + 1,
               position = position_label seatsPerBench seatIdx, a_student = stud\<rparr>
      in (if respectedConstraint then insert (subject stud) benchSubjects else benchSubjects,
          \<lparr>st_groups = groups', st_remaining = st_remaining st - 1,
           st_assignments = st_assignments st @ [a],
           st_conflicts = (if respectedConstraint then st_conflicts st
                           else st_conflicts st @ [constraint_conflict room benchIdx stud])\<rparr>))"

function seat_loop ::
  "room \<Rightarrow> int \<Rightarrow> nat \<Rightarrow> nat \<Rightarrow> string set \<Rightarrow> seat_state \<Rightarrow> seat_state" where
  "seat_loop room seatsPerBench benchIdx seatIdx benchSubjects st =
     (if int seatIdx < seatsPerBench \<and> st_remaining st > 0 then
        (if getSortedSubjects (st_groups st) = [] then st
         else (case seat_step room seatsPerBench benchIdx seatIdx benchSubjects
                      (getSortedSubjects (st_groups st)) st of
                 (benchSubjects', st') \<Rightarrow>
                   seat_loop room seatsPerBench benchIdx (Suc seatIdx) benchSubjects' st'))
      else st)"
  by pat_completeness auto
termination
  by (relation "measure (\<lambda>(room, seatsPerBench, benchIdx, seatIdx, benchSubjects, st).
        nat (seatsPerBench - int seatIdx))") auto

declare seat_loop.simps [simp del]

function bench_loop :: "room \<Rightarrow> int \<Rightarrow> nat \<Rightarrow> seat_state \<Rightarrow> seat_state" where
  "bench_loop room seatsPerBench benchIdx st =
     (if js_lt (Some (int benchIdx)) (num_benches room) \<and> st_remaining st > 0 then
        (if getSortedSubjects (st_groups st) = [] then st
         else bench_loop room seatsPerBench (Suc benchIdx)
                (seat_loop room seatsPerBench benchIdx 0 {} st))
      else st)"
  by pat_completeness auto
termination
  by (relation "measure (\<lambda>(room, seatsPerBench, benchIdx, st).
        (case num_benches room of None \<Rightarrow> 0 | Some b \<Rightarrow> nat (b - int benchIdx)))")
     (auto simp: js_lt_def split: option.splits)

declare bench_loop.simps [simp del]

definition seatsPerBench_of :: "room \<Rightarrow> int" where
  \<comment> \<open>\<open>room.seats_per_bench || 2\<close>\<close>
  "seatsPerBench_of room = (case seats_per_bench room of None \<Rightarrow> 2 | Some k \<Rightarrow> if k = 0 then 2 else k)"

definition assign_room ::
  "room_assignment \<Rightarrow> assignment list \<Rightarrow> conflict list \<Rightarrow> (assignment list \<times> conflict list) outcome" where
  "assign_room ra asgs confs =
     (case group_into subject (\<lambda>s. s) (ra_students ra) [] of
        TypeError \<Rightarrow> TypeError
      | Diverges \<Rightarrow> Diverges
      | Returns roomSubjectGroups \<Rightarrow>
          (let st = bench_loop (ra_room ra) (seatsPerBench_of (ra_room ra)) 0
                      \<lparr>st_groups = roomSubjectGroups, st_remaining = length (ra_students ra),
                       st_assignments = asgs, st_conflicts = confs\<rparr>
           in Returns (st_assignments st,
                 if st_remaining st > 0 then st_conflicts st @ [overflow_conflict (ra_room ra)]
                 else st_conflicts st)))"

fun assign_rooms ::
  "room_assignment list \<Rightarrow> assignment list \<Rightarrow> conflict list \<Rightarrow> (assignment list \<times> conflict list) outcome" where
  "assign_rooms [] asgs confs = Returns (asgs, confs)"
| "assign_rooms (ra # ras) asgs confs =
     (case assign_room ra asgs confs of
        TypeError \<Rightarrow> TypeError
      | Diverges \<Rightarrow> Diverges
      | Returns (asgs', confs') \<Rightarrow> assign_rooms ras asgs' confs')"

section \<open>Roll ranges and room summaries\<close>

text \<open>
  \<open>r.match(/(\d+)-(\d+)/)\<close>: the leftmost place where a run of digits is followed by
  a dash and a digit. The first group is that run (the match starts where the run starts,
  and a shorter first group is followed by a digit, not by the dash); the second group is
  the whole run of digits after the dash.
\<close>

fun roll_match :: "string \<Rightarrow> (string \<times> string) option" where
  "roll_match [] = None"
| "roll_match (c # cs) =
     (if is_digit c then
        (case dropWhile is_digit (c # cs) of
           [] \<Rightarrow> roll_match cs
         | d # after \<Rightarrow>
             if d = CHR ''-'' \<and> takeWhile is_digit after \<noteq> []
             then Some (takeWhile is_digit (c # cs), takeWhile is_digit after)
             else roll_match cs)
      else roll_match cs)"

text \<open>
  \<open>parseInt(s)\<close> with no radix: leading white space is skipped, a sign is read, the prefix
  \<open>0x\<close> or \<open>0X\<close> selects radix 16, and the longest run of digits of the radix is the
  value; with no digit the result is \<open>NaN\<close>. The value is the exact integer that the
  digits denote. The code returns the double nearest to it, which is the same number as
  long as the value is at most \<open>2^53\<close>.
\<close>

definition is_js_space :: "char \<Rightarrow> bool" where
  "is_js_space c = ((of_char c :: nat) \<in> {9, 10, 11, 12, 13, 32, 160})"

definition is_hex_digit :: "char \<Rightarrow> bool" where
  "is_hex_digit c = (c \<in> set ''0123456789abcdefABCDEF'')"

definition hex_digit_val :: "char \<Rightarrow> nat" where
  "hex_digit_val c =
     (if is_digit c then of_char c - 48
      else if c \<in> set ''abcdef'' then of_char c - 87
      else of_char c - 55)"

definition hex_val :: "string \<Rightarrow> nat" where
  "hex_val ds = foldl (\<lambda>a c. 16 * a + hex_digit_val c) 0 ds"

definition parseInt :: "string \<Rightarrow> jsnum" where
  "parseInt s =
     (let t = dropWhile is_js_space s;
          sign = (if t \<noteq> [] \<and> hd t = CHR ''-'' then - 1 else (1::int));
          u = (if t \<noteq> [] \<and> (hd t = CHR ''-'' \<or> hd t = CHR ''+'') then tl t else t)
      in if take 2 u = ''0x'' \<or> take 2 u = ''0X'' then
           (let ds = takeWhile is_hex_digit (drop 2 u)
            in if ds = [] then None else Some (sign * int (hex_val ds)))
         else
           (let ds = takeWhile is_digit u
            in if ds = [] then None else Some (sign * int (dec_val ds))))"

definition join :: "string \<Rightarrow> string list \<Rightarrow> string" where
  "join sep xs = (case xs of [] \<Rightarrow> [] | y # ys \<Rightarrow> foldl (\<lambda>acc z. acc @ sep @ z) y ys)"

subsection \<open>The summary generator's \<open>formatRollRanges\<close> (scheduler)\<close>

definition roll_num :: "string \<Rightarrow> jsnum" where
  "roll_num r = (case roll_match r of Some (p, d) \<Rightarrow> parseInt d | None \<Rightarrow> parseInt r)"

definition span_text :: "jsnum \<Rightarrow> jsnum \<Rightarrow> string" where
  "span_text start en = (if js_seq start en then show_num start else show_num start @ '' to '' @ show_num en)"

fun ranges_loop :: "jsnum list \<Rightarrow> jsnum \<Rightarrow> jsnum \<Rightarrow> string list \<Rightarrow> string list" where
  "ranges_loop [] start en rs = rs @ [span_text start en]"
| "ranges_loop (n # ns) start en rs =
     (if js_seq n (js_add en (Some 1)) then ranges_loop ns start n rs
      else ranges_loop ns n n (rs @ [span_text start en]))"

definition formatRollRanges :: "string list \<Rightarrow> string" where
  "formatRollRanges rolls =
     (case map roll_num rolls of
        [] \<Rightarrow> []
      | n # ns \<Rightarrow> join '', '' (ranges_loop ns n n []))"

subsection \<open>The report layer's \<open>formatRollRanges\<close> (server)\<close>

record roll_parts =
  prefix :: string
  num :: jsnum
  full :: string

definition roll_parts_of :: "string \<Rightarrow> roll_parts" where
  "roll_parts_of r =
     (case roll_match r of
        Some (p, d) \<Rightarrow> \<lparr>prefix = p, num = parseInt d, full = r\<rparr>
      | None \<Rightarrow> \<lparr>prefix = [], num = parseInt r, full = r\<rparr>)"

definition span_text_report :: "roll_parts \<Rightarrow> roll_parts \<Rightarrow> string" where
  "span_text_report start en =
     (if prefix start \<noteq> [] then
        (if js_seq (num start) (num en) then prefix start @ ''-'' @ show_num (num start)
         else prefix start @ ''-'' @ show_num (num start) @ '' to '' @ show_num (num en))
      else
        (if js_seq (num start) (num en) then show_num (num start)
         else show_num (num start) @ '' to '' @ show_num (num en)))"

fun ranges_loop_report ::
  "roll_parts list \<Rightarrow> roll_parts \<Rightarrow> roll_parts \<Rightarrow> string list \<Rightarrow> string list" where
  "ranges_loop_report [] start en rs = rs @ [span_text_report start en]"
| "ranges_loop_report (n # ns) start en rs =
     (if prefix n = prefix en \<and> js_seq (num n) (js_add (num en) (Some 1))
      then ranges_loop_report ns start n rs
      else ranges_loop_report ns n n (rs @ [span_text_report start en]))"

definition formatRollRanges_report :: "string list \<Rightarrow> string" where
  "formatRollRanges_report rolls =
     (case map roll_parts_of rolls of
        [] \<Rightarrow> []
      | n # ns \<Rightarrow> join '', '' (ranges_loop_report ns n n []))"

subsection \<open>\<open>generateRoomSummaries\<close>\<close>

definition count_subjects :: "assignment list \<Rightarrow> nat obj" where
  "count_subjects roomAssignments =
     foldl (\<lambda>subjectCounts a.
              obj_set subjectCounts (subject (a_student a))
                ((case obj_get subjectCounts (subject (a_student a)) of None \<Rightarrow> 0 | Some c \<Rightarrow> c) + 1))
           [] roomAssignments"

definition rolls_of :: "string list obj \<Rightarrow> string \<Rightarrow> string list" where
  "rolls_of subjectRanges subj = (case obj_get subjectRanges subj of None \<Rightarrow> [] | Some rs \<Rightarrow> sort rs)"

definition summarize_room :: "assignment list \<Rightarrow> room \<Rightarrow> room_summary outcome" where
  "summarize_room asgs room =
     (let roomAssignments = filter (\<lambda>a. a_room_id a = room_id room) asgs
      in case group_into (\<lambda>a. subject (a_student a)) (\<lambda>a. roll (a_student a)) roomAssignments [] of
           TypeError \<Rightarrow> TypeError
         | Diverges \<Rightarrow> Diverges
         | Returns subjectRanges \<Rightarrow>
             Returns \<lparr>s_room_id = room_id room, s_room_name = room_name room,
                      total = length roomAssignments,
                      subjects = map (\<lambda>subj. \<lparr>ss_subject = subj,
                                               ss_count = length (rolls_of subjectRanges subj),
                                               ranges = formatRollRanges (rolls_of subjectRanges subj)\<rparr>)
                                     (sort (Object_keys subjectRanges)),
                      subject_counts = count_subjects roomAssignments\<rparr>)"

fun generateRoomSummaries :: "assignment list \<Rightarrow> room list \<Rightarrow> room_summary list outcome" where
  "generateRoomSummaries asgs [] = Returns []"
| "generateRoomSummaries asgs (room # rooms) =
     (case summarize_room asgs room of
        TypeError \<Rightarrow> TypeError
      | Diverges \<Rightarrow> Diverges
      | Returns sm \<Rightarrow>
          (case generateRoomSummaries asgs rooms of
             TypeError \<Rightarrow> TypeError
           | Diverges \<Rightarrow> Diverges
           | Returns sms \<Rightarrow> Returns (sm # sms)))"

section \<open>\<open>greedyPairScheduler\<close>\<close>

definition math_max :: "nat list \<Rightarrow> nat option" where
  \<comment> \<open>\<open>Math.max(...xs)\<close>; \<open>None\<close> is the \<open>-Infinity\<close> of an empty argument list\<close>
  "math_max xs = (case xs of [] \<Rightarrow> None | y # ys \<Rightarrow> Some (foldl max y ys))"

definition half_up :: "nat \<Rightarrow> nat" where
  \<comment> \<open>\<open>Math.ceil(n / 2)\<close>\<close>
  "half_up n = (n + 1) div 2"

definition capacity_result :: "nat \<Rightarrow> jsnum \<Rightarrow> sched_result" where
  "capacity_result n cap =
     \<lparr>success = False, assignments = [],
      diags = \<lparr>feasible = False, conflicts = [],
                suggestions = [''Not enough capacity. Need '' @ show_nat n
                   @ '' seats but have '' @ show_num cap @ ''.'']\<rparr>,
      room_summaries = []\<rparr>"

definition infeasible_conflict :: "nat \<Rightarrow> nat \<Rightarrow> conflict" where
  "infeasible_conflict maxSubjectCount requiredSeats =
     \<lparr>c_type = Infeasible, c_room = None, c_bench_number = None,
      message = ''Subject with '' @ show_nat maxSubjectCount
         @ '' students cannot be seated with bench constraint. Maximum allowed: ''
         @ show_nat (half_up requiredSeats)\<rparr>"

definition infeasible_result :: "nat \<Rightarrow> nat \<Rightarrow> sched_result" where
  "infeasible_result maxSubjectCount requiredSeats =
     \<lparr>success = False, assignments = [],
      diags = \<lparr>feasible = False,
                conflicts = [infeasible_conflict maxSubjectCount requiredSeats],
                suggestions = []\<rparr>,
      room_summaries = []\<rparr>"

definition place_all :: "student list \<Rightarrow> room list \<Rightarrow> sched_result outcome" where
  \<comment> \<open>the part of \<open>greedyPairScheduler\<close> after the two feasibility checks\<close>
  "place_all students rooms =
     (case distribute students rooms of
        TypeError \<Rightarrow> TypeError
      | Diverges \<Rightarrow> Diverges
      | Returns roomAssignments \<Rightarrow>
          (case assign_rooms roomAssignments [] [] of
             TypeError \<Rightarrow> TypeError
           | Diverges \<Rightarrow> Diverges
           | Returns (asgs, confs) \<Rightarrow>
               (case generateRoomSummaries asgs rooms of
                  TypeError \<Rightarrow> TypeError
                | Diverges \<Rightarrow> Diverges
                | Returns sums \<Rightarrow>
                    Returns \<lparr>success = (confs = []), assignments = asgs,
                             diags = \<lparr>feasible = True, conflicts = confs, suggestions = []\<rparr>,
                             room_summaries = sums\<rparr>)))"

definition greedyPairScheduler :: "student list \<Rightarrow> room list \<Rightarrow> sched_result outcome" where
  "greedyPairScheduler students rooms =
     (case group_into subject (\<lambda>s. s) students [] of
        TypeError \<Rightarrow> TypeError
      | Diverges \<Rightarrow> Diverges
      | Returns subjectGroups \<Rightarrow>
          if js_gt (Some (int (length students))) (totalCapacity rooms)
          then Returns (capacity_result (length students) (totalCapacity rooms))
          else (case math_max (map (\<lambda>s. group_len subjectGroups s) (Object_keys subjectGroups)) of
                  None \<Rightarrow> place_all students rooms
                | Some maxSubjectCount \<Rightarrow>
                    if maxSubjectCount > half_up (length students)
                    then Returns (infeasible_result maxSubjectCount (length students))
                    else place_all students rooms))"

section \<open>\<open>schedule\<close>: validation, seeded shuffle, dispatch\<close>

fun duplicate_errors :: "student list \<Rightarrow> string set \<Rightarrow> string list" where
  "duplicate_errors [] rolls = []"
| "duplicate_errors (s # ss) rolls =
     (if roll s \<in> rolls then [''Duplicate roll number: '' @ roll s] else [])
       @ duplicate_errors ss (insert (roll s) rolls)"

definition validateConstraints :: "student list \<Rightarrow> room list \<Rightarrow> string list" where
  "validateConstraints students rooms =
     (if students = [] then [''No students provided''] else [])
       @ (if rooms = [] then [''No rooms provided''] else [])
       @ duplicate_errors students {}"

definition validation_result :: "string list \<Rightarrow> sched_result" where
  "validation_result validationErrors =
     \<lparr>success = False, assignments = [],
      diags = \<lparr>feasible = False,
                conflicts = map (\<lambda>e. \<lparr>c_type = Validation, c_room = None,
                                        c_bench_number = None, message = e\<rparr>) validationErrors,
                suggestions = []\<rparr>,
      room_summaries = []\<rparr>"

text \<open>
  The seeded shuffle. \<open>%\<close> is the truncating remainder (its sign is the dividend's).
  The state \<open>random * 9301 + 49297\<close> and the index \<open>Math.floor(random / 233280 * m)\<close>
  are taken in exact arithmetic. The code computes both in doubles: the state is the
  same for a seed of absolute value below \<open>9 * 10^11\<close>, and the index is the same
  whenever \<open>random * m\<close> is not a multiple of \<open>233280\<close> (and for \<open>random = 0\<close>); on a
  multiple the rounded quotient may fall just below the integer. The properties below
  use of a shuffled array only that it is a permutation of the input, except at seed
  \<open>0\<close> on two students, where the draws are \<open>49297\<close> and \<open>165494\<close> and neither
  \<open>49297 * 2\<close> nor \<open>165494 * 1\<close> is such a multiple. A negative
  \<open>random\<close> gives a negative index: \<open>arr[i]\<close> is then \<open>undefined\<close>, it is stored at
  \<open>arr[m]\<close> and no later pass writes there, so the shuffled array holds \<open>undefined\<close>;
  the result \<open>None\<close> stands for such an array.
\<close>

definition js_rem :: "int \<Rightarrow> int \<Rightarrow> int" where
  "js_rem a b = sgn a * (\<bar>a\<bar> mod \<bar>b\<bar>)"

definition nextRandom :: "int \<Rightarrow> int" where
  "nextRandom random = js_rem (random * 9301 + 49297) 233280"

fun shuffle_loop :: "nat \<Rightarrow> int \<Rightarrow> 'a list \<Rightarrow> 'a list option" where
  "shuffle_loop 0 random arr = Some arr"
| "shuffle_loop (Suc m) random arr =
     (if nextRandom random < 0 then None
      else shuffle_loop m (nextRandom random)
             (arr[m := arr ! nat (nextRandom random * int (Suc m) div 233280),
                  nat (nextRandom random * int (Suc m) div 233280) := arr ! m]))"

definition seededShuffle :: "'a list \<Rightarrow> int \<Rightarrow> 'a list option" where
  "seededShuffle array seed = shuffle_loop (length array) seed array"

record options =
  algorithm :: string
  no_same_subject_bench :: bool
  seed :: "int option"

text \<open>
  Every value of \<open>algorithm\<close> runs the greedy scheduler, and the constraints object is
  passed on and never read. An array holding \<open>undefined\<close> makes the scheduler throw at
  its first access to \<open>s.subject\<close>.
\<close>

definition schedule :: "student list \<Rightarrow> room list \<Rightarrow> options \<Rightarrow> sched_result outcome" where
  "schedule students rooms opts =
     (if validateConstraints students rooms \<noteq> []
      then Returns (validation_result (validateConstraints students rooms))
      else (case seed opts of
              None \<Rightarrow> greedyPairScheduler students rooms
            | Some sd \<Rightarrow>
                (case seededShuffle students sd of
                   None \<Rightarrow> TypeError
                 | Some processedStudents \<Rightarrow> greedyPairScheduler processedStudents rooms)))"

section \<open>Notions used to state the properties\<close>

text \<open>The default options of \<open>schedule\<close>, and the sample data of the scheduler's tests.\<close>

definition default_options :: options where
  "default_options = \<lparr>algorithm = ''greedy'', no_same_subject_bench = True, seed = None\<rparr>"

definition plain_student :: "string \<Rightarrow> string \<Rightarrow> string \<Rightarrow> student" where
  "plain_student r n s = \<lparr>roll = r, name = n, subject = s, preferred_room = None\<rparr>"

definition sampleStudents :: "student list" where
  "sampleStudents =
     [plain_student ''1043-1'' ''Ajay'' ''BBA'', plain_student ''1043-2'' ''Vijay'' ''BBA'',
      plain_student ''1043-3'' ''Sanjay'' ''BBA'', plain_student ''1076-1'' ''Rahul'' ''BCom'',
      plain_student ''1076-2'' ''Rohit'' ''BCom'', plain_student ''1061-1'' ''Neha'' ''BCA'',
      plain_student ''1061-2'' ''Priya'' ''BCA'', plain_student ''1061-3'' ''Sneha'' ''BCA'']"

definition sampleRooms :: "room list" where
  "sampleRooms =
     [\<lparr>room_id = ''R1'', room_name = ''Room 1'', num_benches = Some 4, seats_per_bench = Some 2\<rparr>]"

text \<open>The size of a subject group, and the size of the largest one.\<close>

definition subject_count :: "student list \<Rightarrow> string \<Rightarrow> nat" where
  "subject_count students x = length (filter (\<lambda>s. subject s = x) students)"

definition largest_group_size :: "student list \<Rightarrow> nat" where
  "largest_group_size students =
     foldr max (map (\<lambda>s. subject_count students (subject s)) students) 0"

text \<open>\<open>occurs_in p s\<close>: the text \<open>p\<close> occurs in \<open>s\<close> (as a contiguous part).\<close>

fun occurs_in :: "string \<Rightarrow> string \<Rightarrow> bool" where
  "occurs_in p [] = (p = [])"
| "occurs_in p (c # cs) = (take (length p) (c # cs) = p \<or> occurs_in p cs)"

text \<open>The shuffle leaves no hole: there is no seed, or the seeded shuffle returns an array.\<close>

definition shuffle_ok :: "student list \<Rightarrow> options \<Rightarrow> bool" where
  "shuffle_ok students opts =
     (case seed opts of None \<Rightarrow> True | Some sd \<Rightarrow> seededShuffle students sd \<noteq> None)"

definition no_proto_subject :: "student list \<Rightarrow> bool" where
  "no_proto_subject students = list_all (\<lambda>s. subject s \<notin> set proto_keys) students"

definition duplicate_students :: "student list" where
  "duplicate_students = [plain_student ''1'' ''A'' ''BBA'', plain_student ''1'' ''B'' ''BCom'']"

definition imbalanced_students :: "student list" where
  "imbalanced_students =
     [plain_student ''1'' ''S1'' ''BBA'', plain_student ''2'' ''S2'' ''BBA'',
      plain_student ''3'' ''S3'' ''BBA'', plain_student ''4'' ''Sole'' ''BCom'']"

text \<open>
  The shape of the subject groups of a room while it is being seated: the keys are
  distinct, no array is empty, and the array under a subject holds students of that
  subject. \<open>total_len\<close> is the number of students still in the groups.
\<close>

definition groups_inv :: "student list obj \<Rightarrow> bool" where
  "groups_inv g = (distinct (map fst g)
      \<and> (\<forall>(k, xs) \<in> set g. xs \<noteq> [] \<and> (\<forall>s \<in> set xs. subject s = k)))"

definition total_len :: "'v list obj \<Rightarrow> nat" where
  "total_len g = sum_list (map (\<lambda>(k, xs). length xs) g)"

definition group_mset :: "'v list obj \<Rightarrow> 'v multiset" where
  \<comment> \<open>the students still in the groups, as a multiset\<close>
  "group_mset g = sum_list (map (\<lambda>(k, xs). mset xs) g)"

definition seat_inv :: "seat_state \<Rightarrow> bool" where
  "seat_inv st = (groups_inv (st_groups st) \<and> st_remaining st = total_len (st_groups st))"

text \<open>
  What the seat loop of one bench adds to the state: the new assignments \<open>new\<close> and
  the new conflicts \<open>more\<close>.
\<close>

definition seat_loop_post ::
  "room \<Rightarrow> int \<Rightarrow> nat \<Rightarrow> nat \<Rightarrow> string set \<Rightarrow> seat_state \<Rightarrow> seat_state \<Rightarrow> bool" where
  "seat_loop_post room K b i bs st st' =
     (\<exists>new more.
        st_assignments st' = st_assignments st @ new
      \<and> st_conflicts st' = st_conflicts st @ more
      \<and> seat_inv st'
      \<and> st_remaining st' + length new = st_remaining st
      \<and> group_mset (st_groups st') + mset (map a_student new) = group_mset (st_groups st)
      \<and> length new = min (st_remaining st) (nat (K - int i))
      \<and> (\<forall>a \<in> set new. a_room_id a = room_id room \<and> a_room_name a = room_name room
             \<and> bench_number a = b + 1)
      \<and> map position new = map (position_label K) [i ..< i + length new]
      \<and> (\<forall>c \<in> set more. c_type c = Constraint)
      \<and> (more = [] \<longrightarrow> distinct (map (\<lambda>a. subject (a_student a)) new)
                       \<and> (\<forall>a \<in> set new. subject (a_student a) \<notin> bs)))"

text \<open>The benches from index \<open>b\<close> on, and what the bench loop adds to the state.\<close>

definition benches_left :: "room \<Rightarrow> nat \<Rightarrow> nat" where
  "benches_left room b = (case num_benches room of None \<Rightarrow> 0 | Some n \<Rightarrow> nat (n - int b))"

definition bench_loop_post :: "room \<Rightarrow> int \<Rightarrow> nat \<Rightarrow> seat_state \<Rightarrow> seat_state \<Rightarrow> bool" where
  "bench_loop_post room K b st st' =
     (\<exists>new more.
        st_assignments st' = st_assignments st @ new
      \<and> st_conflicts st' = st_conflicts st @ more
      \<and> seat_inv st'
      \<and> st_remaining st' + length new = st_remaining st
      \<and> group_mset (st_groups st') + mset (map a_student new) = group_mset (st_groups st)
      \<and> st_remaining st' = st_remaining st - benches_left room b * nat K
      \<and> (\<forall>a \<in> set new. a_room_id a = room_id room \<and> a_room_name a = room_name room
             \<and> b < bench_number a)
      \<and> distinct (map (\<lambda>a. (bench_number a, position a)) new)
      \<and> (\<forall>c \<in> set more. c_type c = Constraint)
      \<and> (more = [] \<longrightarrow> distinct (map (\<lambda>a. (bench_number a, subject (a_student a))) new)))"

text \<open>
  A room fits when its benches and seats hold the students allocated to it. What seating
  one room, and all rooms, adds to the assignments (\<open>new\<close>) and conflicts (\<open>extra\<close>).
\<close>

definition room_fits :: "room_assignment \<Rightarrow> bool" where
  "room_fits ra = (length (ra_students ra)
      \<le> benches_left (ra_room ra) 0 * nat (seatsPerBench_of (ra_room ra)))"

definition assign_room_post :: "room_assignment \<Rightarrow> assignment list \<Rightarrow> conflict list \<Rightarrow> bool" where
  "assign_room_post ra new extra =
     ((\<forall>a \<in> set new. a_room_id a = room_id (ra_room ra) \<and> a_room_name a = room_name (ra_room ra))
    \<and> distinct (map (\<lambda>a. (bench_number a, position a)) new)
    \<and> mset (map a_student new) \<subseteq># mset (ra_students ra)
    \<and> (\<forall>c \<in> set extra. c_type c = Constraint \<or> c_type c = Overflow)
    \<and> (Overflow \<notin> c_type ` set extra \<longrightarrow> mset (map a_student new) = mset (ra_students ra))
    \<and> (extra = [] \<longrightarrow> distinct (map (\<lambda>a. (bench_number a, subject (a_student a))) new))
    \<and> (room_fits ra \<longrightarrow> Overflow \<notin> c_type ` set extra))"

definition assign_rooms_post ::
  "room_assignment list \<Rightarrow> assignment list \<Rightarrow> conflict list \<Rightarrow> bool" where
  "assign_rooms_post ras new extra =
     ((\<forall>a \<in> set new. \<exists>ra \<in> set ras. a_room_id a = room_id (ra_room ra)
           \<and> a_room_name a = room_name (ra_room ra) \<and> a_student a \<in> set (ra_students ra))
    \<and> (distinct (map (\<lambda>ra. room_id (ra_room ra)) ras) \<longrightarrow>
          distinct (map (\<lambda>a. (a_room_id a, bench_number a, position a)) new))
    \<and> (\<forall>c \<in> set extra. c_type c = Constraint \<or> c_type c = Overflow)
    \<and> (Overflow \<notin> c_type ` set extra \<longrightarrow>
          mset (map a_student new) = mset (concat (map ra_students ras))
        \<and> (\<forall>ra \<in> set ras. \<forall>s \<in> set (ra_students ra). \<exists>a \<in> set new. a_student a = s
              \<and> a_room_id a = room_id (ra_room ra) \<and> a_room_name a = room_name (ra_room ra)))
    \<and> (extra = [] \<longrightarrow> distinct (map (\<lambda>ra. room_id (ra_room ra)) ras) \<longrightarrow>
          distinct (map (\<lambda>a. (a_room_id a, bench_number a, subject (a_student a))) new))
    \<and> ((\<forall>ra \<in> set ras. room_fits ra) \<longrightarrow> Overflow \<notin> c_type ` set extra))"

text \<open>
  The room a student's preference points at: the first room whose name or id equals the
  (non-empty) preference. \<open>take_cap c xs\<close> are the first \<open>c\<close> elements of \<open>xs\<close>, none
  when the capacity is not a number.
\<close>

definition room_matches :: "string \<Rightarrow> room \<Rightarrow> bool" where
  "room_matches p r = (room_name r = p \<or> room_id r = p)"

definition pref_target :: "room list \<Rightarrow> student \<Rightarrow> nat option" where
  "pref_target rooms s =
     (case preferred_room s of
        None \<Rightarrow> None
      | Some p \<Rightarrow> if p = [] then None else find_idx (room_matches p) rooms)"

definition take_cap :: "jsnum \<Rightarrow> 'a list \<Rightarrow> 'a list" where
  "take_cap c xs = (case c of None \<Rightarrow> [] | Some n \<Rightarrow> take (nat n) xs)"

definition cap_ok :: "room_assignment \<Rightarrow> bool" where
  "cap_ok ra = (case ra_capacity ra of None \<Rightarrow> True
                | Some c \<Rightarrow> int (length (ra_students ra)) \<le> c)"

definition allocated :: "room_assignment list \<Rightarrow> nat" where
  "allocated ras = sum_list (map (\<lambda>ra. length (ra_students ra)) ras)"

definition cap_sum :: "room_assignment list \<Rightarrow> jsnum" where
  "cap_sum ras = foldl (\<lambda>sum ra. js_add sum (ra_capacity ra)) (Some 0) ras"

text \<open>
  A room with well-formed dimensions: both are positive integers. The seat and the
  bench-and-subject of an assignment, and the success flag and assignments of a call
  (none when it does not return).
\<close>

definition well_formed_room :: "room \<Rightarrow> bool" where
  "well_formed_room r =
     (case num_benches r of None \<Rightarrow> False
      | Some b \<Rightarrow> (case seats_per_bench r of None \<Rightarrow> False | Some k \<Rightarrow> 0 < b \<and> 0 < k))"

definition seat_of :: "assignment \<Rightarrow> string \<times> nat \<times> string" where
  "seat_of a = (a_room_id a, bench_number a, position a)"

definition bench_subject_of :: "assignment \<Rightarrow> string \<times> nat \<times> string" where
  "bench_subject_of a = (a_room_id a, bench_number a, subject (a_student a))"

definition result_success :: "sched_result outcome \<Rightarrow> bool" where
  "result_success x = (case x of Returns r \<Rightarrow> success r | TypeError \<Rightarrow> False | Diverges \<Rightarrow> False)"

definition result_assignments :: "sched_result outcome \<Rightarrow> assignment list" where
  "result_assignments x = (case x of Returns r \<Rightarrow> assignments r | TypeError \<Rightarrow> [] | Diverges \<Rightarrow> [])"

definition result_conflicts :: "sched_result outcome \<Rightarrow> conflict list" where
  "result_conflicts x = (case x of Returns r \<Rightarrow> conflicts (diags r) | TypeError \<Rightarrow> [] | Diverges \<Rightarrow> [])"

text \<open>Two rooms that share the id \<open>R1\<close>, and four students of two subjects.\<close>

definition same_id_rooms :: "room list" where
  "same_id_rooms =
     [\<lparr>room_id = ''R1'', room_name = ''Room 1'', num_benches = Some 1, seats_per_bench = Some 2\<rparr>,
      \<lparr>room_id = ''R1'', room_name = ''Room 1b'', num_benches = Some 1, seats_per_bench = Some 2\<rparr>]"

definition four_students :: "student list" where
  "four_students =
     [plain_student ''1'' ''a'' ''A'', plain_student ''2'' ''b'' ''A'',
      plain_student ''3'' ''c'' ''B'', plain_student ''4'' ''d'' ''B'']"


definition summaries_of :: "room_summary list outcome \<Rightarrow> room_summary list" where
  "summaries_of x = (case x of Returns sums \<Rightarrow> sums | TypeError \<Rightarrow> [] | Diverges \<Rightarrow> [])"

text \<open>Rooms with a missing dimension (the field is absent), and one student.\<close>

definition room_without_seats :: room where
  "room_without_seats =
     \<lparr>room_id = ''R1'', room_name = ''Room 1'', num_benches = Some 1, seats_per_bench = None\<rparr>"

definition room_without_benches :: room where
  "room_without_benches =
     \<lparr>room_id = ''R1'', room_name = ''Room 1'', num_benches = None, seats_per_bench = Some 2\<rparr>"

definition one_student :: "student list" where
  "one_student = [plain_student ''1'' ''A'' ''BBA'']"



definition allocation_of :: "room_assignment list outcome \<Rightarrow> room_assignment list" where
  "allocation_of x = (case x of Returns ras \<Rightarrow> ras | TypeError \<Rightarrow> [] | Diverges \<Rightarrow> [])"















definition one_seat_rooms :: "room list" where
  "one_seat_rooms =
     [\<lparr>room_id = ''R1'', room_name = ''Room 1'', num_benches = Some 1, seats_per_bench = Some 1\<rparr>,
      \<lparr>room_id = ''R2'', room_name = ''Room 2'', num_benches = Some 2, seats_per_bench = Some 2\<rparr>]"





definition three_students :: "student list" where
  "three_students =
     [plain_student ''1'' ''A'' ''BBA'', plain_student ''2'' ''B'' ''BCom'',
      plain_student ''3'' ''C'' ''BCA'']"

section \<open>The two roll-range formatters\<close>

lemma ranges_loop_report_plain:
  assumes "\<forall>r\<in>set rs. roll_match r = None" "prefix start = []" "prefix en = []"
  shows "ranges_loop_report (map roll_parts_of rs) start en acc
       = ranges_loop (map roll_num rs) (num start) (num en) acc"
  using assms
proof (induction rs arbitrary: start en acc)
  case Nil
  then show ?case by (simp add: span_text_report_def span_text_def)
next
  case (Cons r rs)
  have r: "roll_match r = None" using Cons.prems by simp
  have p: "prefix (roll_parts_of r) = []" "num (roll_parts_of r) = roll_num r"
    using r by (simp_all add: roll_parts_of_def roll_num_def)
  have rest: "\<forall>r\<in>set rs. roll_match r = None" using Cons.prems by simp
  show ?case
    using Cons.IH[OF rest, of _ "roll_parts_of r"] Cons.prems(2,3) p
    by (simp add: span_text_report_def span_text_def)
qed

text \<open>
  C4 (as stated, false): the summary generator's and the report layer's
  \<open>formatRollRanges\<close> do not return the same string on the rolls
  \<open>10-1, 10-2, 10-3, 10-5\<close>: the report layer keeps the prefix of each span.
\<close>

theorem formatRollRanges_differ:
  "formatRollRanges [''10-1'', ''10-2'', ''10-3'', ''10-5''] = ''1 to 3, 5''
   \<and> formatRollRanges_report [''10-1'', ''10-2'', ''10-3'', ''10-5''] = ''10-1 to 3, 10-5''
   \<and> formatRollRanges_report [''10-1'', ''10-2'', ''10-3'', ''10-5'']
       \<noteq> formatRollRanges [''10-1'', ''10-2'', ''10-3'', ''10-5'']"
  by code_simp

text \<open>
  C4 (amended): on every list of rolls none of which contains a run of digits followed by
  a dash and a digit (so that no roll has a prefix), the two implementations of
  \<open>formatRollRanges\<close> return the same string.
\<close>

theorem formatRollRanges_agree_without_prefix:
  assumes "\<forall>r\<in>set rolls. roll_match r = None"
  shows "formatRollRanges_report rolls = formatRollRanges rolls"
proof (cases rolls)
  case Nil
  then show ?thesis by (simp add: formatRollRanges_report_def formatRollRanges_def)
next
  case (Cons r rs)
  have r: "roll_match r = None" and rest: "\<forall>r\<in>set rs. roll_match r = None"
    using assms Cons by simp_all
  have p: "prefix (roll_parts_of r) = []" "num (roll_parts_of r) = roll_num r"
    using r by (simp_all add: roll_parts_of_def roll_num_def)
  show ?thesis
    using ranges_loop_report_plain[OF rest p(1) p(1), of "[]"] p Cons
    by (simp add: formatRollRanges_report_def formatRollRanges_def)
qed

theorem formatRollRanges_agree_witness:
  "roll_match ''7'' = None \<and> roll_match ''8'' = None \<and> roll_match ''10'' = None
   \<and> formatRollRanges_report [''7'', ''8'', ''10''] = ''7 to 8, 10''
   \<and> formatRollRanges [''7'', ''8'', ''10''] = ''7 to 8, 10''"
proof -
  have h: "\<forall>r\<in>set [''7'', ''8'', ''10'']. roll_match r = None" by code_simp
  have v: "formatRollRanges [''7'', ''8'', ''10''] = ''7 to 8, 10''" by code_simp
  show ?thesis using h v formatRollRanges_agree_without_prefix[OF h] by simp
qed

section \<open>Basic facts about objects, grouping and the shuffle\<close>


lemma set_obj_insert: "set (obj_insert k v ob) = insert (k, v) (set ob)"
  by (induction ob) (auto split: if_splits)

lemma map_fst_update: "map fst (map (\<lambda>(k', v'). if k' = k then (k', v) else (k', v')) ob) = map fst ob"
  by (induction ob) auto

lemma keys_obj_set: "fst ` set (obj_set ob k v) = insert k (fst ` set ob)"
proof (cases "k \<in> fst ` set ob")
  case True
  have "fst ` set (obj_set ob k v) = set (map fst (obj_set ob k v))" by simp
  also have "\<dots> = set (map fst ob)" using True unfolding obj_set_def by (simp only: if_True map_fst_update)
  finally show ?thesis using True by auto
next
  case False
  then show ?thesis by (simp add: obj_set_def set_obj_insert)
qed

lemma distinct_obj_insert:
  "distinct (map fst ob) \<Longrightarrow> k \<notin> fst ` set ob \<Longrightarrow> distinct (map fst (obj_insert k v ob))"
  by (induction ob) (auto simp: set_obj_insert image_iff)

lemma distinct_obj_set: "distinct (map fst ob) \<Longrightarrow> distinct (map fst (obj_set ob k v))"
proof (cases "k \<in> fst ` set ob")
  case True
  then have "map fst (obj_set ob k v) = map fst ob"
    unfolding obj_set_def by (simp only: if_True map_fst_update)
  then show "distinct (map fst ob) \<Longrightarrow> ?thesis" by simp
next
  case False
  then show "distinct (map fst ob) \<Longrightarrow> ?thesis"
    by (simp add: obj_set_def distinct_obj_insert)
qed

lemma map_of_obj_insert:
  "k \<notin> fst ` set ob \<Longrightarrow> map_of (obj_insert k v ob) = (map_of ob)(k \<mapsto> v)"
  by (induction ob) (auto simp: fun_eq_iff)

lemma map_of_update: "map_of (map (\<lambda>(k', v'). if k' = k then (k', v) else (k', v')) ob) k' =
   (if k' = k then (case map_of ob k of None \<Rightarrow> None | Some _ \<Rightarrow> Some v) else map_of ob k')"
  by (induction ob) auto

lemma obj_get_obj_set: "obj_get (obj_set ob k v) k' = (if k' = k then Some v else obj_get ob k')"
  unfolding obj_get_def obj_set_def
  by (auto simp: map_of_obj_insert map_of_update  split: option.splits simp: map_of_eq_None_iff)

lemma group_of_obj_set: "group_of (obj_set ob k v) k' = (if k' = k then v else group_of ob k')"
  by (simp add: group_of_def obj_get_obj_set)

lemma group_len_eq: "group_len g k = length (group_of g k)"
  by (simp add: group_len_def group_of_def split: option.splits)

lemma group_into_spec:
  assumes "group_into key val xs g = Returns g'" "distinct (map fst g)"
  shows "distinct (map fst g') \<and> fst ` set g' = fst ` set g \<union> key ` set xs
     \<and> (\<forall>k. group_of g' k = group_of g k @ map val (filter (\<lambda>x. key x = k) xs))
     \<and> (\<forall>x\<in>set xs. key x \<notin> set proto_keys)"
  using assms
proof (induction xs arbitrary: g)
  case Nil
  then show ?case by simp
next
  case (Cons x xs)
  from Cons.prems(1) have np: "key x \<notin> set proto_keys" by (auto split: if_splits)
  define g1 where "g1 = obj_set g (key x) (group_of g (key x) @ [val x])"
  have step: "group_into key val xs g1 = Returns g'"
    using Cons.prems(1) np by (auto simp: g1_def group_of_def split: option.splits)
  have d1: "distinct (map fst g1)" using Cons.prems(2) by (simp add: g1_def distinct_obj_set)
  note IH = Cons.IH[OF step d1]
  have k1: "fst ` set g1 = insert (key x) (fst ` set g)" by (simp add: g1_def keys_obj_set)
  have go: "\<And>k. group_of g1 k = (if k = key x then group_of g (key x) @ [val x] else group_of g k)"
    by (simp add: g1_def group_of_obj_set)
  show ?case using IH np k1 go by auto
qed

lemma group_into_returns:
  "(\<forall>x\<in>set xs. key x \<notin> set proto_keys) \<Longrightarrow> \<exists>g'. group_into key val xs g = Returns g'"
  by (induction xs arbitrary: g) (auto split: option.splits)

lemma group_into_throws:
  "(\<exists>x\<in>set xs. key x \<in> set proto_keys) \<Longrightarrow> group_into key val xs g = TypeError"
  by (induction xs arbitrary: g) (auto split: option.splits)

lemma group_of_empty: "group_of [] k = []" by (simp add: group_of_def obj_get_def)

lemma foldl_max_Max: "foldl max (y::nat) ys = Max (set (y # ys))"
proof -
  have "(\<lambda>x s. max s x) = (max :: nat \<Rightarrow> nat \<Rightarrow> nat)" by (intro ext) (simp add: max.commute)
  then have "foldl max y ys = fold max ys y" by (simp add: foldl_conv_fold)
  also have "\<dots> = Max (set (y # ys))" by (rule Max.set_eq_fold[symmetric])
  finally show ?thesis .
qed

lemma math_max_eq: "math_max xs = (if xs = [] then None else Some (Max (set xs)))"
  unfolding math_max_def by (cases xs) (simp_all add: foldl_max_Max)

lemma foldr_max_Max: "foldr max xs (0::nat) = Max (insert 0 (set xs))"
proof (induction xs)
  case Nil
  then show ?case by simp
next
  case (Cons a xs)
  have "Max (insert a (insert 0 (set xs))) = max a (Max (insert 0 (set xs)))"
    by (rule Max_insert) auto
  then show ?case using Cons by (simp add: insert_commute)
qed

lemma largest_group_size_Max:
  "largest_group_size students = Max (insert 0 (subject_count students ` subject ` set students))"
  by (simp add: largest_group_size_def foldr_max_Max image_image)

lemma subject_count_mset: "subject_count students x = size (filter_mset (\<lambda>s. subject s = x) (mset students))"
  by (simp add: subject_count_def flip: mset_filter)

lemma largest_group_size_perm:
  "mset xs = mset ys \<Longrightarrow> largest_group_size xs = largest_group_size ys"
proof -
  assume a: "mset xs = mset ys"
  then have s: "set xs = set ys" by (rule mset_eq_setD)
  have c: "subject_count xs = subject_count ys" by (intro ext) (simp add: subject_count_mset a)
  show ?thesis unfolding largest_group_size_Max by (simp only: s c)
qed

lemma scheduler_max:
  assumes "group_into subject (\<lambda>s. s) students [] = Returns g"
  shows "math_max (map (\<lambda>s. group_len g s) (Object_keys g))
       = (if students = [] then None else Some (largest_group_size students))"
proof -
  from group_into_spec[OF assms] have ks: "fst ` set g = subject ` set students"
    and go: "\<And>k. group_of g k = filter (\<lambda>x. subject x = k) students"
    by (simp_all add: group_of_empty)
  have gl: "\<And>k. group_len g k = subject_count students k"
    by (simp add: group_len_eq go subject_count_def)
  have s: "set (map (\<lambda>s. group_len g s) (Object_keys g)) = subject_count students ` subject ` set students"
    using ks by (simp add: Object_keys_def gl image_image) (metis image_image)
  show ?thesis
  proof (cases "students = []")
    case True
    then have "g = []" using ks by simp
    then show ?thesis using True by (simp add: math_max_eq Object_keys_def)
  next
    case False
    then have ne: "map (\<lambda>s. group_len g s) (Object_keys g) \<noteq> []"
      using ks by (auto simp: Object_keys_def)
    have "Max (insert 0 (subject_count students ` subject ` set students)) = Max (subject_count students ` subject ` set students)"
      using False by (subst Max_insert) (auto simp: max_def)
    then show ?thesis using False ne s by (simp add: math_max_eq largest_group_size_Max del: set_map)
  qed
qed

lemma nextRandom_bound: "nextRandom r < 233280"
proof -
  have "\<bar>r * 9301 + 49297\<bar> mod 233280 < 233280" "0 \<le> \<bar>r * 9301 + 49297\<bar> mod 233280"
    by simp_all
  then show ?thesis unfolding nextRandom_def js_rem_def by (auto simp: sgn_if)
qed

lemma shuffle_loop_mset:
  "shuffle_loop m r arr = Some arr' \<Longrightarrow> m \<le> length arr \<Longrightarrow> mset arr' = mset arr"
proof (induction m arbitrary: r arr)
  case 0
  then show ?case by simp
next
  case (Suc m)
  let ?r = "nextRandom r"
  let ?i = "nat (?r * int (Suc m) div 233280)"
  from Suc.prems(1) have nn: "0 \<le> ?r" by (auto split: if_splits)
  have "?r * int (Suc m) < 233280 * int (Suc m)"
    by (intro mult_strict_right_mono) (use nextRandom_bound[of r] in auto)
  then have "?r * int (Suc m) div 233280 < int (Suc m)"
    by (simp add: div_less_iff_less_mult)
  then have i: "?i \<le> m" using nn by linarith
  have rec: "shuffle_loop m ?r (arr[m := arr ! ?i, ?i := arr ! m]) = Some arr'"
    using Suc.prems(1) nn by (auto split: if_splits)
  have "mset arr' = mset (arr[m := arr ! ?i, ?i := arr ! m])"
    using Suc.IH[OF rec] Suc.prems(2) by simp
  also have "\<dots> = mset arr"
    using i Suc.prems(2) by (intro mset_swap) auto
  finally show ?case .
qed

lemma seededShuffle_mset: "seededShuffle arr sd = Some arr' \<Longrightarrow> mset arr' = mset arr"
  unfolding seededShuffle_def by (rule shuffle_loop_mset) auto

section \<open>Feasibility, validation and success\<close>


lemma half_up_ceiling: "n \<le> 2 * half_up n \<and> 2 * half_up n < n + 2"
  unfolding half_up_def by presburger

lemma place_all_result:
  "place_all ps rooms = Returns r \<Longrightarrow>
     feasible (diags r) \<and> success r = (conflicts (diags r) = [])"
  unfolding place_all_def by (auto split: outcome.splits prod.splits)

lemma greedy_cases:
  assumes "greedyPairScheduler ps rooms = Returns r"
  shows "no_proto_subject ps \<and>
    ((js_gt (Some (int (length ps))) (totalCapacity rooms) \<and> r = capacity_result (length ps) (totalCapacity rooms))
    \<or> (\<not> js_gt (Some (int (length ps))) (totalCapacity rooms) \<and> largest_group_size ps > half_up (length ps)
        \<and> r = infeasible_result (largest_group_size ps) (length ps))
    \<or> (\<not> js_gt (Some (int (length ps))) (totalCapacity rooms) \<and> \<not> largest_group_size ps > half_up (length ps)
        \<and> place_all ps rooms = Returns r))"
proof -
  obtain g where g: "group_into subject (\<lambda>s. s) ps [] = Returns g"
    using assms unfolding greedyPairScheduler_def by (auto split: outcome.splits)
  have np: "no_proto_subject ps"
    using group_into_spec[OF g] by (simp add: no_proto_subject_def list_all_iff)
  have l0: "ps = [] \<Longrightarrow> \<not> largest_group_size ps > half_up (length ps)"
    by (simp add: largest_group_size_def)
  show ?thesis
    using assms np l0 unfolding greedyPairScheduler_def
    by (simp only: g outcome.case scheduler_max[OF g]) (auto split: if_splits)
qed

lemma greedy_infeasible:
  assumes "no_proto_subject ps" "\<not> js_gt (Some (int (length ps))) (totalCapacity rooms)"
    "largest_group_size ps > half_up (length ps)"
  shows "greedyPairScheduler ps rooms = Returns (infeasible_result (largest_group_size ps) (length ps))"
proof -
  obtain g where g: "group_into subject (\<lambda>s. s) ps [] = Returns g"
    using group_into_returns[of ps subject "\<lambda>s. s" "[]"] assms(1)
    by (auto simp: no_proto_subject_def list_all_iff)
  have ne: "ps \<noteq> []" using assms(3) by (auto simp: largest_group_size_def)
  show ?thesis
    unfolding greedyPairScheduler_def using assms(2,3) ne
    by (simp only: g outcome.case scheduler_max[OF g]) simp
qed

lemma schedule_cases:
  assumes "schedule students rooms opts = Returns r"
  shows "(validateConstraints students rooms \<noteq> [] \<and> r = validation_result (validateConstraints students rooms))
     \<or> (validateConstraints students rooms = [] \<and>
         (\<exists>ps. mset ps = mset students \<and> greedyPairScheduler ps rooms = Returns r))"
proof (cases "validateConstraints students rooms = []")
  case False
  then show ?thesis using assms by (simp add: schedule_def)
next
  case True
  show ?thesis
  proof (cases "seed opts")
    case None
    then show ?thesis using assms True by (auto simp: schedule_def)
  next
    case (Some sd)
    then obtain ps where ps: "seededShuffle students sd = Some ps" "greedyPairScheduler ps rooms = Returns r"
      using assms True by (auto simp: schedule_def split: option.splits)
    then show ?thesis using True seededShuffle_mset[OF ps(1)] by auto
  qed
qed

lemma length_perm: "mset ps = mset students \<Longrightarrow> length ps = length students"
  by (metis size_mset)

text \<open>
  C5 (amended): whenever \<open>schedule\<close> returns, \<open>success\<close> holds iff \<open>feasible\<close> holds and
  the conflict list is empty; and \<open>feasible\<close> is false exactly when input validation
  failed (no students, no rooms, a duplicate roll) or one of the two feasibility checks
  failed (more students than the total capacity, or a largest subject group above
  \<open>ceil(n/2)\<close>).
\<close>

theorem feasible_and_success:
  assumes "schedule students rooms opts = Returns r"
  shows "(success r \<longleftrightarrow> feasible (diags r) \<and> conflicts (diags r) = [])
     \<and> (\<not> feasible (diags r) \<longleftrightarrow>
           validateConstraints students rooms \<noteq> []
         \<or> js_gt (Some (int (length students))) (totalCapacity rooms)
         \<or> largest_group_size students > half_up (length students))"
proof -
  from schedule_cases[OF assms] show ?thesis
  proof
    assume "validateConstraints students rooms \<noteq> [] \<and> r = validation_result (validateConstraints students rooms)"
    then show ?thesis by (simp add: validation_result_def)
  next
    assume a: "validateConstraints students rooms = [] \<and>
         (\<exists>ps. mset ps = mset students \<and> greedyPairScheduler ps rooms = Returns r)"
    then obtain ps where ps: "mset ps = mset students" "greedyPairScheduler ps rooms = Returns r"
      by blast
    have e: "length ps = length students" "largest_group_size ps = largest_group_size students"
      using length_perm[OF ps(1)] largest_group_size_perm[OF ps(1)] by simp_all
    from greedy_cases[OF ps(2)] show ?thesis
      unfolding e using a
      by (auto simp: capacity_result_def infeasible_result_def dest: place_all_result)
  qed
qed

text \<open>
  C5 (as stated, false): two students sharing the roll \<open>1\<close> in a room of capacity 8 pass
  both feasibility checks, yet the result of the validation failure has
  \<open>feasible = false\<close>.
\<close>

theorem validation_failure_not_feasible:
  "schedule duplicate_students sampleRooms default_options
     = Returns (validation_result [''Duplicate roll number: 1''])
   \<and> \<not> feasible (diags (validation_result [''Duplicate roll number: 1'']))
   \<and> \<not> js_gt (Some (int (length duplicate_students))) (totalCapacity sampleRooms)
   \<and> \<not> largest_group_size duplicate_students > half_up (length duplicate_students)"
  by code_simp

theorem feasible_and_success_witness:
  "schedule sampleStudents sampleRooms default_options \<noteq> TypeError
   \<and> schedule sampleStudents sampleRooms default_options \<noteq> Diverges
   \<and> (case schedule sampleStudents sampleRooms default_options of
        Returns r \<Rightarrow> success r \<and> feasible (diags r) \<and> conflicts (diags r) = [] | _ \<Rightarrow> False)
   \<and> validateConstraints sampleStudents sampleRooms = []
   \<and> \<not> js_gt (Some (int (length sampleStudents))) (totalCapacity sampleRooms)
   \<and> \<not> largest_group_size sampleStudents > half_up (length sampleStudents)"
proof -
  obtain r where r: "schedule sampleStudents sampleRooms default_options = Returns r"
    and s: "success r"
  proof -
    have "case schedule sampleStudents sampleRooms default_options of Returns r \<Rightarrow> success r | _ \<Rightarrow> False"
      by code_simp
    then show ?thesis using that by (auto split: outcome.splits)
  qed
  have h: "validateConstraints sampleStudents sampleRooms = []"
    "\<not> js_gt (Some (int (length sampleStudents))) (totalCapacity sampleRooms)"
    "\<not> largest_group_size sampleStudents > half_up (length sampleStudents)"
    by code_simp+
  show ?thesis using feasible_and_success[OF r] s r h by simp
qed

text \<open>
  C3 (amended): for every input that passes validation and the capacity check (and whose
  grouping and shuffle do not throw), if the largest subject group \<open>s\<close> exceeds
  \<open>ceil(n/2)\<close>, \<open>schedule\<close> returns at once with \<open>success = false\<close>,
  \<open>feasible = false\<close>, no assignments, no summaries, and one conflict of type
  \<open>infeasible\<close> whose message gives the size \<open>s\<close> of the oversized group and the
  maximum allowed \<open>ceil(n/2)\<close>; the message does not name the subject.
\<close>

theorem infeasible_distribution:
  assumes "validateConstraints students rooms = []"
    and "shuffle_ok students opts"
    and "no_proto_subject students"
    and "\<not> js_gt (Some (int (length students))) (totalCapacity rooms)"
    and "largest_group_size students > half_up (length students)"
  shows "schedule students rooms opts =
     Returns \<lparr>success = False, assignments = [],
       diags = \<lparr>feasible = False,
         conflicts = [\<lparr>c_type = Infeasible, c_room = None, c_bench_number = None,
            message = ''Subject with '' @ show_nat (largest_group_size students)
              @ '' students cannot be seated with bench constraint. Maximum allowed: ''
              @ show_nat (half_up (length students))\<rparr>],
         suggestions = []\<rparr>,
       room_summaries = []\<rparr>"
proof -
  obtain ps where ps: "mset ps = mset students"
    and sch: "schedule students rooms opts = greedyPairScheduler ps rooms"
  proof (cases "seed opts")
    case None
    then show ?thesis using that[of students] assms(1) by (simp add: schedule_def)
  next
    case (Some sd)
    then obtain ps where p: "seededShuffle students sd = Some ps"
      using assms(2) by (auto simp: shuffle_ok_def)
    then show ?thesis using that[of ps] assms(1) Some seededShuffle_mset[OF p]
      by (simp add: schedule_def)
  qed
  have e: "length ps = length students" "largest_group_size ps = largest_group_size students"
    using length_perm[OF ps] largest_group_size_perm[OF ps] by simp_all
  have np: "no_proto_subject ps"
    using assms(3) mset_eq_setD[OF ps] by (simp add: no_proto_subject_def list_all_iff)
  show ?thesis
    using greedy_infeasible[OF np] assms(4,5) unfolding e sch
    by (simp add: infeasible_result_def infeasible_conflict_def)
qed

theorem infeasible_distribution_witness:
  "validateConstraints imbalanced_students sampleRooms = []
   \<and> shuffle_ok imbalanced_students default_options
   \<and> no_proto_subject imbalanced_students
   \<and> \<not> js_gt (Some (int (length imbalanced_students))) (totalCapacity sampleRooms)
   \<and> largest_group_size imbalanced_students = 3 \<and> half_up (length imbalanced_students) = 2
   \<and> schedule imbalanced_students sampleRooms default_options =
     Returns \<lparr>success = False, assignments = [],
       diags = \<lparr>feasible = False,
         conflicts = [\<lparr>c_type = Infeasible, c_room = None, c_bench_number = None,
            message = ''Subject with 3 students cannot be seated with bench constraint. Maximum allowed: 2''\<rparr>],
         suggestions = []\<rparr>,
       room_summaries = []\<rparr>"
proof -
  have h1: "validateConstraints imbalanced_students sampleRooms = []" by code_simp
  have h2: "shuffle_ok imbalanced_students default_options" by code_simp
  have h3: "no_proto_subject imbalanced_students" by code_simp
  have h4: "\<not> js_gt (Some (int (length imbalanced_students))) (totalCapacity sampleRooms)" by code_simp
  have v: "largest_group_size imbalanced_students = 3" "half_up (length imbalanced_students) = 2"
    by code_simp+
  have h5: "largest_group_size imbalanced_students > half_up (length imbalanced_students)"
    unfolding v by simp
  have s: "show_nat 3 = ''3''" "show_nat 2 = ''2''" by code_simp+
  show ?thesis
    using infeasible_distribution[OF h1 h2 h3 h4 h5] h1 h2 h3 h4 unfolding v s by simp
qed

text \<open>
  C3 (as stated, false): with three \<open>BBA\<close> students among four, the conflict that is
  emitted carries the size of the oversized group and the maximum allowed, and the name
  \<open>BBA\<close> of the oversized subject occurs nowhere in it.
\<close>

theorem infeasible_conflict_omits_subject:
  "schedule imbalanced_students sampleRooms default_options =
     Returns \<lparr>success = False, assignments = [],
       diags = \<lparr>feasible = False,
         conflicts = [\<lparr>c_type = Infeasible, c_room = None, c_bench_number = None,
            message = ''Subject with 3 students cannot be seated with bench constraint. Maximum allowed: 2''\<rparr>],
         suggestions = []\<rparr>,
       room_summaries = []\<rparr>
   \<and> subject_count imbalanced_students ''BBA'' = 3
   \<and> \<not> occurs_in ''BBA''
        ''Subject with 3 students cannot be seated with bench constraint. Maximum allowed: 2''"
  by code_simp

section \<open>Invariants of the subject groups\<close>


lemma group_of_in: "distinct (map fst g) \<Longrightarrow> (k, xs) \<in> set g \<Longrightarrow> group_of g k = xs"
  by (simp add: group_of_def obj_get_def)

lemma group_of_notin: "k \<notin> fst ` set g \<Longrightarrow> group_of g k = []"
  by (simp add: group_of_def obj_get_def map_of_eq_None_iff[THEN iffD2])

lemma obj_get_Some_in: "obj_get g k = Some xs \<Longrightarrow> (k, xs) \<in> set g"
  by (simp add: obj_get_def map_of_SomeD)

lemma total_len_update:
  "distinct (map fst g) \<Longrightarrow> (k, xs) \<in> set g \<Longrightarrow>
   total_len (map (\<lambda>(k', v'). if k' = k then (k', v) else (k', v')) g) + length xs
     = total_len g + length v"
proof (induction g)
  case Nil
  then show ?case by simp
next
  case (Cons p g)
  obtain k0 x0 where p: "p = (k0, x0)" by (cases p)
  show ?case
  proof (cases "k0 = k")
    case True
    then have x: "x0 = xs" and kn: "k \<notin> fst ` set g"
      using Cons.prems p by (auto simp: image_iff)
    have same: "map (\<lambda>(k', v'). if k' = k then (k', v) else (k', v')) g = g"
      using kn by (intro map_idI) (auto simp: image_iff)
    show ?thesis using True x p same by (simp add: total_len_def)
  next
    case False
    then have "(k, xs) \<in> set g" "distinct (map fst g)" using Cons.prems p by auto
    from Cons.IH[OF this(2,1)] show ?thesis using False p by (simp add: total_len_def)
  qed
qed

lemma total_len_insert: "total_len (obj_insert k v g) = total_len g + length v"
  by (induction g) (auto simp: total_len_def)

lemma total_len_obj_set:
  assumes "distinct (map fst g)"
  shows "total_len (obj_set g k v) + length (group_of g k) = total_len g + length v"
proof (cases "k \<in> fst ` set g")
  case True
  then obtain xs where xs: "(k, xs) \<in> set g" by auto
  show ?thesis
    using total_len_update[OF assms xs, of v] True group_of_in[OF assms xs]
    by (simp add: obj_set_def)
next
  case False
  then show ?thesis by (simp add: obj_set_def total_len_insert group_of_notin)
qed

lemma total_len_obj_delete:
  "distinct (map fst g) \<Longrightarrow> total_len (obj_delete g k) + length (group_of g k) = total_len g"
proof (induction g)
  case Nil
  then show ?case by (simp add: total_len_def obj_delete_def group_of_def obj_get_def)
next
  case (Cons p g)
  obtain k0 x0 where p: "p = (k0, x0)" by (cases p)
  show ?case
  proof (cases "k0 = k")
    case True
    then have kn: "k \<notin> fst ` set g" using Cons.prems p by (auto simp: image_iff)
    then have "filter (\<lambda>(k', v'). k' \<noteq> k) g = g" by (intro filter_True) (auto simp: image_iff)
    then show ?thesis using True p by (simp add: total_len_def obj_delete_def group_of_def obj_get_def)
  next
    case False
    then have g: "group_of (p # g) k = group_of g k" using p by (simp add: group_of_def obj_get_def)
    have "distinct (map fst g)" using Cons.prems by simp
    from Cons.IH[OF this] show ?thesis using False p g by (simp add: total_len_def obj_delete_def)
  qed
qed

lemma group_mset_update:
  "distinct (map fst g) \<Longrightarrow> (k, xs) \<in> set g \<Longrightarrow>
   group_mset (map (\<lambda>(k', v'). if k' = k then (k', v) else (k', v')) g) + mset xs
     = group_mset g + mset v"
proof (induction g)
  case Nil
  then show ?case by simp
next
  case (Cons p g)
  obtain k0 x0 where p: "p = (k0, x0)" by (cases p)
  show ?case
  proof (cases "k0 = k")
    case True
    then have x: "x0 = xs" and kn: "k \<notin> fst ` set g"
      using Cons.prems p by (auto simp: image_iff)
    have same: "map (\<lambda>(k', v'). if k' = k then (k', v) else (k', v')) g = g"
      using kn by (intro map_idI) (auto simp: image_iff)
    show ?thesis using True x p same by (simp add: group_mset_def)
  next
    case False
    then have "(k, xs) \<in> set g" "distinct (map fst g)" using Cons.prems p by auto
    from Cons.IH[OF this(2,1)] show ?thesis using False p by (simp add: group_mset_def)
  qed
qed

lemma group_mset_insert: "group_mset (obj_insert k v g) = group_mset g + mset v"
  by (induction g) (auto simp: group_mset_def)

lemma group_mset_obj_set:
  assumes "distinct (map fst g)"
  shows "group_mset (obj_set g k v) + mset (group_of g k) = group_mset g + mset v"
proof (cases "k \<in> fst ` set g")
  case True
  then obtain xs where xs: "(k, xs) \<in> set g" by auto
  show ?thesis
    using group_mset_update[OF assms xs, of v] True group_of_in[OF assms xs]
    by (simp add: obj_set_def)
next
  case False
  then show ?thesis by (simp add: obj_set_def group_mset_insert group_of_notin)
qed

lemma group_mset_obj_delete:
  "distinct (map fst g) \<Longrightarrow> group_mset (obj_delete g k) + mset (group_of g k) = group_mset g"
proof (induction g)
  case Nil
  then show ?case by (simp add: group_mset_def obj_delete_def group_of_def obj_get_def)
next
  case (Cons p g)
  obtain k0 x0 where p: "p = (k0, x0)" by (cases p)
  show ?case
  proof (cases "k0 = k")
    case True
    then have kn: "k \<notin> fst ` set g" using Cons.prems p by (auto simp: image_iff)
    then have "filter (\<lambda>(k', v'). k' \<noteq> k) g = g" by (intro filter_True) (auto simp: image_iff)
    then show ?thesis using True p by (simp add: group_mset_def obj_delete_def group_of_def obj_get_def)
  next
    case False
    then have g: "group_of (p # g) k = group_of g k" using p by (simp add: group_of_def obj_get_def)
    have "distinct (map fst g)" using Cons.prems by simp
    from Cons.IH[OF this] show ?thesis using False p g by (simp add: group_mset_def obj_delete_def)
  qed
qed

lemma set_obj_set_subset:
  "set (obj_set g k v) \<subseteq> insert (k, v) (set g)"
  by (auto simp: obj_set_def set_obj_insert split: if_splits)

lemma groups_inv_obj_set:
  assumes "groups_inv g" "v \<noteq> []" "\<forall>s\<in>set v. subject s = k"
  shows "groups_inv (obj_set g k v)"
  unfolding groups_inv_def
proof (intro conjI)
  show "distinct (map fst (obj_set g k v))"
    using assms(1) by (simp add: groups_inv_def distinct_obj_set)
  show "\<forall>(k', xs)\<in>set (obj_set g k v). xs \<noteq> [] \<and> (\<forall>s\<in>set xs. subject s = k')"
    using set_obj_set_subset[of g k v] assms unfolding groups_inv_def by blast
qed

lemma groups_inv_obj_delete: "groups_inv g \<Longrightarrow> groups_inv (obj_delete g k)"
  unfolding groups_inv_def obj_delete_def by (auto simp: distinct_map_filter)

lemma groups_inv_group_of:
  "groups_inv g \<Longrightarrow> s \<in> set (group_of g k) \<Longrightarrow> subject s = k"
proof -
  assume inv: "groups_inv g" and s: "s \<in> set (group_of g k)"
  then obtain xs where xs: "obj_get g k = Some xs" "s \<in> set xs"
    by (cases "obj_get g k") (simp_all add: group_of_def)
  from obj_get_Some_in[OF xs(1)] inv xs(2) show ?thesis
    unfolding groups_inv_def by blast
qed

lemma groups_inv_nonempty:
  "groups_inv g \<Longrightarrow> k \<in> fst ` set g \<Longrightarrow> group_of g k \<noteq> []"
  unfolding groups_inv_def by (auto simp: group_of_in)

lemma group_into_inv:
  "group_into subject (\<lambda>s. s) xs g = Returns g' \<Longrightarrow> groups_inv g \<Longrightarrow>
     groups_inv g' \<and> total_len g' = total_len g + length xs
     \<and> group_mset g' = group_mset g + mset xs"
proof (induction xs arbitrary: g)
  case Nil
  then show ?case by simp
next
  case (Cons x xs)
  define g1 where "g1 = obj_set g (subject x) (group_of g (subject x) @ [x])"
  have step: "group_into subject (\<lambda>s. s) xs g1 = Returns g'"
    using Cons.prems(1) by (auto simp: g1_def group_of_def split: option.splits if_splits)
  have inv1: "groups_inv g1"
    unfolding g1_def using Cons.prems(2) groups_inv_group_of[OF Cons.prems(2)]
    by (intro groups_inv_obj_set) auto
  have "total_len g1 + length (group_of g (subject x)) = total_len g + length (group_of g (subject x) @ [x])"
    unfolding g1_def using Cons.prems(2) by (intro total_len_obj_set) (simp add: groups_inv_def)
  then have t1: "total_len g1 = total_len g + 1" by simp
  have "group_mset g1 + mset (group_of g (subject x)) = group_mset g + mset (group_of g (subject x) @ [x])"
    unfolding g1_def using Cons.prems(2) by (intro group_mset_obj_set) (simp add: groups_inv_def)
  then have m1: "group_mset g1 = group_mset g + {#x#}" by simp
  from Cons.IH[OF step inv1] t1 m1 show ?case by simp
qed

lemma groups_inv_empty: "groups_inv []" "total_len [] = 0" "group_mset [] = {#}"
  by (simp_all add: groups_inv_def total_len_def group_mset_def)

lemma set_getSortedSubjects:
  "groups_inv g \<Longrightarrow> set (getSortedSubjects g) = fst ` set g"
proof -
  assume inv: "groups_inv g"
  have "\<And>k. k \<in> fst ` set g \<Longrightarrow> group_len g k > 0"
    using groups_inv_nonempty[OF inv] by (simp add: group_len_eq)
  then have "filter (\<lambda>k. group_len g k > 0) (map fst g) = map fst g"
    by (intro filter_True) auto
  then show ?thesis by (simp add: getSortedSubjects_def Object_keys_def)
qed

lemma total_len_pos: "groups_inv g \<Longrightarrow> (total_len g > 0) = (g \<noteq> [])"
proof (cases g)
  case Nil
  then show ?thesis by (simp add: total_len_def)
next
  case (Cons p g')
  assume "groups_inv g"
  then have "snd p \<noteq> []" using Cons by (auto simp: groups_inv_def)
  then show ?thesis using Cons by (cases p) (simp add: total_len_def)
qed

lemma getSortedSubjects_nonempty:
  "seat_inv st \<Longrightarrow> st_remaining st > 0 \<Longrightarrow> getSortedSubjects (st_groups st) \<noteq> []"
proof -
  assume a: "seat_inv st" "st_remaining st > 0"
  then have "st_groups st \<noteq> []" using total_len_pos[of "st_groups st"] by (simp add: seat_inv_def)
  then have "fst ` set (st_groups st) \<noteq> {}" by simp
  then show ?thesis using set_getSortedSubjects[of "st_groups st"] a(1)
    by (metis seat_inv_def empty_set)
qed

lemma seat_step_spec:
  assumes inv: "seat_inv st" and pos: "st_remaining st > 0"
    and step: "seat_step room K b i bs (getSortedSubjects (st_groups st)) st = (bs', st')"
  shows "\<exists>a. st_assignments st' = st_assignments st @ [a]
      \<and> a_room_id a = room_id room \<and> a_room_name a = room_name room
      \<and> bench_number a = b + 1 \<and> position a = position_label K i
      \<and> seat_inv st' \<and> st_remaining st' + 1 = st_remaining st
      \<and> group_mset (st_groups st') + {#a_student a#} = group_mset (st_groups st)
      \<and> ((st_conflicts st' = st_conflicts st \<and> subject (a_student a) \<notin> bs
             \<and> bs' = insert (subject (a_student a)) bs)
         \<or> (st_conflicts st' = st_conflicts st @ [constraint_conflict room b (a_student a)]
             \<and> bs' = bs))"
proof -
  let ?g = "st_groups st"
  let ?avail = "getSortedSubjects ?g"
  define found where "found = find (\<lambda>subject. subject \<notin> bs) ?avail"
  define respected where "respected = (case found of None \<Rightarrow> False | Some c \<Rightarrow> c \<noteq> [])"
  define chosen where "chosen = (case found of None \<Rightarrow> hd ?avail
                           | Some c \<Rightarrow> if c \<noteq> [] then c else hd ?avail)"
  define grp where "grp = group_of ?g chosen"
  define stud where "stud = last grp"
  define g' where "g' = (if butlast grp = [] then obj_delete ?g chosen
                     else obj_set ?g chosen (butlast grp))"
  define a where "a = \<lparr>a_room_id = room_id room, a_room_name = room_name room,
               bench_number = b + 1, position = position_label K i, a_student = stud\<rparr>"
  have ginv: "groups_inv ?g" and rem: "st_remaining st = total_len ?g"
    using inv by (simp_all add: seat_inv_def)
  have ane: "?avail \<noteq> []" using getSortedSubjects_nonempty[OF inv pos] .
  have found_in: "\<And>c. found = Some c \<Longrightarrow> c \<in> set ?avail \<and> c \<notin> bs"
    unfolding found_def by (auto simp: find_Some_iff)
  have "chosen \<in> set ?avail"
    unfolding chosen_def using ane found_in by (auto split: option.splits)
  then have ck: "chosen \<in> fst ` set ?g" using set_getSortedSubjects[OF ginv] by simp
  have gne: "grp \<noteq> []" unfolding grp_def using groups_inv_nonempty[OF ginv ck] .
  have subj: "\<And>s. s \<in> set grp \<Longrightarrow> subject s = chosen"
    unfolding grp_def using groups_inv_group_of[OF ginv] by blast
  have stud_in: "stud \<in> set grp" unfolding stud_def using gne by simp
  have ss: "subject stud = chosen" using subj[OF stud_in] .
  have st': "st' = \<lparr>st_groups = g', st_remaining = st_remaining st - 1,
           st_assignments = st_assignments st @ [a],
           st_conflicts = (if respected then st_conflicts st
                           else st_conflicts st @ [constraint_conflict room b stud])\<rparr>"
    and bs': "bs' = (if respected then insert (subject stud) bs else bs)"
    using step[symmetric] unfolding seat_step_def Let_def
    by (simp_all add: found_def respected_def chosen_def grp_def stud_def g'_def a_def)
  have bl: "set (butlast grp) \<subseteq> set grp" by (meson in_set_butlastD subsetI)
  have ginv': "groups_inv g'"
    unfolding g'_def using ginv subj bl
    by (auto intro!: groups_inv_obj_set groups_inv_obj_delete)
  have dist: "distinct (map fst ?g)" using ginv by (simp add: groups_inv_def)
  have tl: "total_len g' + 1 = total_len ?g"
  proof (cases "butlast grp = []")
    case True
    then have "length grp = 1" using gne by (cases grp) (auto split: if_splits)
    then show ?thesis using True total_len_obj_delete[OF dist, of chosen]
      by (simp add: g'_def grp_def)
  next
    case False
    have "length (butlast grp) + 1 = length grp" using gne by simp
    then show ?thesis using False total_len_obj_set[OF dist, of chosen "butlast grp"]
      by (simp add: g'_def grp_def)
  qed
  have gm: "group_mset g' + {#stud#} = group_mset ?g"
  proof (cases "butlast grp = []")
    case True
    then have "grp = [stud]" using gne unfolding stud_def by (cases grp) (auto split: if_splits)
    then show ?thesis using True group_mset_obj_delete[OF dist, of chosen]
      by (simp add: g'_def grp_def)
  next
    case False
    have e: "butlast grp @ [stud] = grp" unfolding stud_def using gne by simp
    have "mset (butlast grp) + {#stud#} = mset (butlast grp @ [stud])" by simp
    then have mm: "mset grp = mset (butlast grp) + {#stud#}" unfolding e by simp
    have "group_mset g' + mset grp = group_mset ?g + mset (butlast grp)"
      using False group_mset_obj_set[OF dist, of chosen "butlast grp"]
      by (simp add: g'_def grp_def)
    then show ?thesis unfolding mm by simp
  qed
  have resp: "respected \<Longrightarrow> subject stud \<notin> bs"
    unfolding ss using found_in
    by (auto simp: respected_def chosen_def split: option.splits)
  have "seat_inv st'" using ginv' tl rem by (simp add: seat_inv_def st')
  moreover have "st_remaining st' + 1 = st_remaining st" using pos by (simp add: st')
  moreover have "group_mset (st_groups st') + {#a_student a#} = group_mset (st_groups st)"
    using gm by (simp add: st' a_def)
  ultimately show ?thesis
    using resp by (intro exI[of _ a]) (auto simp: st' bs' a_def)
qed

lemma seat_loop_stop:
  "\<not> (int i < K \<and> st_remaining st > 0) \<Longrightarrow> seat_loop room K b i bs st = st"
  by (subst seat_loop.simps) auto

lemma seat_loop_step:
  "int i < K \<Longrightarrow> st_remaining st > 0 \<Longrightarrow> getSortedSubjects (st_groups st) \<noteq> [] \<Longrightarrow>
   seat_step room K b i bs (getSortedSubjects (st_groups st)) st = (bs', st') \<Longrightarrow>
   seat_loop room K b i bs st = seat_loop room K b (Suc i) bs' st'"
  by (subst seat_loop.simps) simp

lemma seat_loop_spec:
  "seat_inv st \<Longrightarrow> seat_loop_post room K b i bs st (seat_loop room K b i bs st)"
proof (induction room K b i bs st rule: seat_loop.induct)
  case (1 room K b i bs st)
  show ?case
  proof (cases "int i < K \<and> st_remaining st > 0")
    case False
    then have "min (st_remaining st) (nat (K - int i)) = 0" by auto
    then show ?thesis
      using "1.prems" seat_loop_stop[OF False]
      unfolding seat_loop_post_def by (intro exI[of _ "[]"]) simp
  next
    case True
    then have c: "int i < K" "st_remaining st > 0" by simp_all
    have ane: "getSortedSubjects (st_groups st) \<noteq> []"
      using getSortedSubjects_nonempty[OF "1.prems" c(2)] .
    obtain bs' st1 where stp: "seat_step room K b i bs (getSortedSubjects (st_groups st)) st = (bs', st1)"
      by (cases "seat_step room K b i bs (getSortedSubjects (st_groups st)) st")
    from seat_step_spec[OF "1.prems" c(2) stp] obtain a where
      a: "st_assignments st1 = st_assignments st @ [a]"
        "a_room_id a = room_id room" "a_room_name a = room_name room"
        "bench_number a = b + 1" "position a = position_label K i"
        "seat_inv st1" "st_remaining st1 + 1 = st_remaining st"
        "(st_conflicts st1 = st_conflicts st \<and> subject (a_student a) \<notin> bs
             \<and> bs' = insert (subject (a_student a)) bs)
         \<or> (st_conflicts st1 = st_conflicts st @ [constraint_conflict room b (a_student a)]
             \<and> bs' = bs)"
        "group_mset (st_groups st1) + {#a_student a#} = group_mset (st_groups st)"
      by blast
    let ?st' = "seat_loop room K b (Suc i) bs' st1"
    have eq: "seat_loop room K b i bs st = ?st'"
      using seat_loop_step[OF c ane stp] .
    have "seat_loop_post room K b (Suc i) bs' st1 ?st'"
      using "1.IH"[OF True ane stp[symmetric] a(6)] .
    then obtain new more where
      n: "st_assignments ?st' = st_assignments st1 @ new"
        "st_conflicts ?st' = st_conflicts st1 @ more"
        "seat_inv ?st'"
        "st_remaining ?st' + length new = st_remaining st1"
        "length new = min (st_remaining st1) (nat (K - int (Suc i)))"
        "\<forall>a \<in> set new. a_room_id a = room_id room \<and> a_room_name a = room_name room
             \<and> bench_number a = b + 1"
        "map position new = map (position_label K) [Suc i ..< Suc i + length new]"
        "\<forall>c \<in> set more. c_type c = Constraint"
        "more = [] \<longrightarrow> distinct (map (\<lambda>a. subject (a_student a)) new)
                       \<and> (\<forall>a \<in> set new. subject (a_student a) \<notin> bs')"
        "group_mset (st_groups ?st') + mset (map a_student new) = group_mset (st_groups st1)"
      unfolding seat_loop_post_def by blast
    obtain m0 where m0: "st_conflicts st1 = st_conflicts st @ m0"
      "\<forall>c \<in> set m0. c_type c = Constraint"
      "m0 = [] \<longrightarrow> subject (a_student a) \<notin> bs \<and> bs' = insert (subject (a_student a)) bs"
      using a(8) by (auto simp: constraint_conflict_def)
    have p1: "st_assignments ?st' = st_assignments st @ (a # new)" using n(1) a(1) by simp
    have p2: "st_conflicts ?st' = st_conflicts st @ (m0 @ more)" using n(2) m0(1) by simp
    have p4: "st_remaining ?st' + length (a # new) = st_remaining st" using n(4) a(7) by simp
    have p5: "length (a # new) = min (st_remaining st) (nat (K - int i))"
      using n(5) a(7) c by auto
    have p6: "\<forall>x \<in> set (a # new). a_room_id x = room_id room \<and> a_room_name x = room_name room
             \<and> bench_number x = b + 1" using n(6) a(2,3,4) by simp
    have "[i ..< Suc (i + length new)] = i # [Suc i ..< Suc (i + length new)]"
      by (rule upt_conv_Cons) simp
    then have p7: "map position (a # new) = map (position_label K) [i ..< i + length (a # new)]"
      using n(7) a(5) by simp
    have p8: "\<forall>c \<in> set (m0 @ more). c_type c = Constraint" using n(8) m0(2) by auto
    have p9: "m0 @ more = [] \<longrightarrow> distinct (map (\<lambda>a. subject (a_student a)) (a # new))
                       \<and> (\<forall>x \<in> set (a # new). subject (a_student x) \<notin> bs)"
      using n(9) m0(3) by auto
    have "group_mset (st_groups st) = (group_mset (st_groups ?st') + mset (map a_student new)) + {#a_student a#}"
      unfolding n(10) a(9) ..
    then have p10: "group_mset (st_groups ?st') + mset (map a_student (a # new)) = group_mset (st_groups st)"
      by simp
    show ?thesis
      unfolding seat_loop_post_def eq
      using p1 p2 n(3) p4 p5 p6 p7 p8 p9 p10 by blast
  qed
qed

section \<open>The seat loop and the bench loop\<close>


lemma dec_val_snoc: "dec_val (ds @ [c]) = 10 * dec_val ds + digit_val c"
  by (simp add: dec_val_def)

lemma digit_val_digit_char: "d < 10 \<Longrightarrow> digit_val (digit_char d) = d"
  by (simp add: digit_val_def digit_char_def)

lemma dec_val_show_nat: "dec_val (show_nat n) = n"
proof (induction n rule: show_nat.induct)
  case (1 n)
  show ?case
  proof (cases "n < 10")
    case True
    then show ?thesis
      by (subst show_nat.simps) (simp add: dec_val_def digit_val_digit_char)
  next
    case False
    then show ?thesis
      using 1 by (subst show_nat.simps) (simp add: dec_val_snoc digit_val_digit_char)
  qed
qed

lemma show_nat_inj: "show_nat m = show_nat n \<Longrightarrow> m = n"
  by (metis dec_val_show_nat)

lemma position_label_inj:
  assumes "int i < K" "int j < K" "position_label K i = position_label K j"
  shows "i = j"
proof (cases "K = 2")
  case True
  then have "i < 2" "j < 2" using assms by simp_all
  then consider "i = 0 \<and> j = 0" | "i = 0 \<and> j = 1" | "i = 1 \<and> j = 0" | "i = 1 \<and> j = 1"
    by linarith
  then show ?thesis using assms(3) True by cases (simp_all add: position_label_def)
next
  case False
  then show ?thesis using assms(3) show_nat_inj[of "i + 1" "j + 1"]
    by (simp add: position_label_def)
qed

lemma distinct_positions:
  "int n \<le> K \<Longrightarrow> distinct (map (position_label K) [0 ..< n])"
proof -
  assume n: "int n \<le> K"
  have "inj_on (position_label K) (set [0 ..< n])"
  proof (rule inj_onI)
    fix x y assume "x \<in> set [0 ..< n]" "y \<in> set [0 ..< n]"
      and e: "position_label K x = position_label K y"
    then have "int x < K" "int y < K" using n by auto
    then show "x = y" using e by (rule position_label_inj)
  qed
  then show ?thesis by (simp add: distinct_map)
qed

lemma distinct_map_append:
  "distinct (map f xs) \<Longrightarrow> distinct (map f ys) \<Longrightarrow>
   (\<And>x y. x \<in> set xs \<Longrightarrow> y \<in> set ys \<Longrightarrow> f x \<noteq> f y) \<Longrightarrow>
   distinct (map f (xs @ ys))"
  by auto

lemma bench_loop_stop:
  "\<not> (js_lt (Some (int b)) (num_benches room) \<and> st_remaining st > 0) \<Longrightarrow>
   bench_loop room K b st = st"
  by (subst bench_loop.simps) auto

lemma bench_loop_step:
  "js_lt (Some (int b)) (num_benches room) \<Longrightarrow> st_remaining st > 0 \<Longrightarrow>
   getSortedSubjects (st_groups st) \<noteq> [] \<Longrightarrow>
   bench_loop room K b st = bench_loop room K (Suc b) (seat_loop room K b 0 {} st)"
  by (subst bench_loop.simps) simp

lemma benches_left_zero: "\<not> js_lt (Some (int b)) (num_benches room) \<Longrightarrow> benches_left room b = 0"
  by (auto simp: js_lt_def benches_left_def split: option.splits)

lemma benches_left_Suc:
  "js_lt (Some (int b)) (num_benches room) \<Longrightarrow> benches_left room b = Suc (benches_left room (Suc b))"
  by (auto simp: js_lt_def benches_left_def split: option.splits)

lemma bench_loop_spec:
  "seat_inv st \<Longrightarrow> bench_loop_post room K b st (bench_loop room K b st)"
proof (induction room K b st rule: bench_loop.induct)
  case (1 room K b st)
  show ?case
  proof (cases "js_lt (Some (int b)) (num_benches room) \<and> st_remaining st > 0")
    case False
    then have "st_remaining st = st_remaining st - benches_left room b * nat K"
      using benches_left_zero[of b room] by auto
    then show ?thesis
      using "1.prems" bench_loop_stop[OF False]
      unfolding bench_loop_post_def by (intro exI[of _ "[]"]) simp
  next
    case True
    then have c: "js_lt (Some (int b)) (num_benches room)" "st_remaining st > 0" by simp_all
    have ane: "getSortedSubjects (st_groups st) \<noteq> []"
      using getSortedSubjects_nonempty[OF "1.prems" c(2)] .
    let ?st1 = "seat_loop room K b 0 {} st"
    let ?st' = "bench_loop room K (Suc b) ?st1"
    have eq: "bench_loop room K b st = ?st'" using bench_loop_step[OF c ane] .
    from seat_loop_spec[OF "1.prems", of room K b 0 "{}"] obtain new1 more1 where
      s: "st_assignments ?st1 = st_assignments st @ new1"
        "st_conflicts ?st1 = st_conflicts st @ more1"
        "seat_inv ?st1"
        "st_remaining ?st1 + length new1 = st_remaining st"
        "length new1 = min (st_remaining st) (nat (K - int 0))"
        "\<forall>a \<in> set new1. a_room_id a = room_id room \<and> a_room_name a = room_name room
             \<and> bench_number a = b + 1"
        "map position new1 = map (position_label K) [0 ..< 0 + length new1]"
        "\<forall>c \<in> set more1. c_type c = Constraint"
        "more1 = [] \<longrightarrow> distinct (map (\<lambda>a. subject (a_student a)) new1)
                       \<and> (\<forall>a \<in> set new1. subject (a_student a) \<notin> {})"
        "group_mset (st_groups ?st1) + mset (map a_student new1) = group_mset (st_groups st)"
      unfolding seat_loop_post_def by blast
    have "bench_loop_post room K (Suc b) ?st1 ?st'"
      using "1.IH"[OF True ane s(3)] .
    then obtain new2 more2 where
      n: "st_assignments ?st' = st_assignments ?st1 @ new2"
        "st_conflicts ?st' = st_conflicts ?st1 @ more2"
        "seat_inv ?st'"
        "st_remaining ?st' + length new2 = st_remaining ?st1"
        "st_remaining ?st' = st_remaining ?st1 - benches_left room (Suc b) * nat K"
        "\<forall>a \<in> set new2. a_room_id a = room_id room \<and> a_room_name a = room_name room
             \<and> Suc b < bench_number a"
        "distinct (map (\<lambda>a. (bench_number a, position a)) new2)"
        "\<forall>c \<in> set more2. c_type c = Constraint"
        "more2 = [] \<longrightarrow> distinct (map (\<lambda>a. (bench_number a, subject (a_student a))) new2)"
        "group_mset (st_groups ?st') + mset (map a_student new2) = group_mset (st_groups ?st1)"
      unfolding bench_loop_post_def by blast
    have p1: "st_assignments ?st' = st_assignments st @ (new1 @ new2)" using n(1) s(1) by simp
    have p2: "st_conflicts ?st' = st_conflicts st @ (more1 @ more2)" using n(2) s(2) by simp
    have p4: "st_remaining ?st' + length (new1 @ new2) = st_remaining st" using n(4) s(4) by simp
    have r1: "st_remaining ?st1 = st_remaining st - nat K" using s(4,5) by auto
    have p5: "st_remaining ?st' = st_remaining st - benches_left room b * nat K"
      using n(5) r1 benches_left_Suc[OF c(1)] by simp
    have p6: "\<forall>a \<in> set (new1 @ new2). a_room_id a = room_id room \<and> a_room_name a = room_name room
             \<and> b < bench_number a" using n(6) s(6) by auto
    have len1: "int (length new1) \<le> K \<or> new1 = []"
    proof (cases "0 \<le> K")
      case True
      have "length new1 \<le> nat K" using s(5) by simp
      then show ?thesis using True by linarith
    next
      case False
      then have "length new1 = 0" using s(5) by simp
      then show ?thesis by simp
    qed
    have dp1: "distinct (map position new1)"
    proof (cases "new1 = []")
      case True
      then show ?thesis by simp
    next
      case False
      then have "int (length new1) \<le> K" using len1 by simp
      then show ?thesis using s(7) distinct_positions[of "length new1" K] by simp
    qed
    have b1: "\<And>a. a \<in> set new1 \<Longrightarrow> bench_number a = b + 1" using s(6) by simp
    have b2: "\<And>a. a \<in> set new2 \<Longrightarrow> bench_number a \<noteq> b + 1" using n(6) by auto
    have m1: "map (\<lambda>a. (bench_number a, position a)) new1 = map (\<lambda>p. (b + 1, p)) (map position new1)"
      using b1 by simp
    have d1: "distinct (map (\<lambda>a. (bench_number a, position a)) new1)"
      unfolding m1 using dp1 by (simp add: distinct_map inj_on_def)
    have p7: "distinct (map (\<lambda>a. (bench_number a, position a)) (new1 @ new2))"
    proof (rule distinct_map_append[OF d1 n(7)])
      fix x y assume "x \<in> set new1" "y \<in> set new2"
      then have "bench_number x \<noteq> bench_number y" using b1[of x] b2[of y] by simp
      then show "(bench_number x, position x) \<noteq> (bench_number y, position y)" by simp
    qed
    have p8: "\<forall>c \<in> set (more1 @ more2). c_type c = Constraint" using n(8) s(8) by auto
    have p9: "more1 @ more2 = [] \<longrightarrow> distinct (map (\<lambda>a. (bench_number a, subject (a_student a))) (new1 @ new2))"
    proof
      assume e: "more1 @ more2 = []"
      then have ds: "distinct (map (\<lambda>a. subject (a_student a)) new1)"
        and d2: "distinct (map (\<lambda>a. (bench_number a, subject (a_student a))) new2)"
        using s(9) n(9) by simp_all
      have m2: "map (\<lambda>a. (bench_number a, subject (a_student a))) new1
           = map (\<lambda>p. (b + 1, p)) (map (\<lambda>a. subject (a_student a)) new1)"
        using b1 by simp
      have d3: "distinct (map (\<lambda>a. (bench_number a, subject (a_student a))) new1)"
        unfolding m2 using ds by (simp add: distinct_map inj_on_def)
      show "distinct (map (\<lambda>a. (bench_number a, subject (a_student a))) (new1 @ new2))"
      proof (rule distinct_map_append[OF d3 d2])
        fix x y assume "x \<in> set new1" "y \<in> set new2"
        then have "bench_number x \<noteq> bench_number y" using b1[of x] b2[of y] by simp
        then show "(bench_number x, subject (a_student x)) \<noteq> (bench_number y, subject (a_student y))"
          by simp
      qed
    qed
    have "group_mset (st_groups st) = (group_mset (st_groups ?st') + mset (map a_student new2)) + mset (map a_student new1)"
      unfolding n(10) s(10) ..
    then have p10: "group_mset (st_groups ?st') + mset (map a_student (new1 @ new2)) = group_mset (st_groups st)"
      by simp
    show ?thesis
      unfolding bench_loop_post_def eq
      using p1 p2 n(3) p4 p5 p6 p7 p8 p9 p10 by blast
  qed
qed

section \<open>Seating one room and all rooms\<close>


lemma seat_inv_done:
  "seat_inv st \<Longrightarrow> st_remaining st = 0 \<Longrightarrow> group_mset (st_groups st) = {#}"
proof -
  assume a: "seat_inv st" "st_remaining st = 0"
  then have "st_groups st = []"
    using total_len_pos[of "st_groups st"] by (simp add: seat_inv_def)
  then show ?thesis by (simp add: group_mset_def)
qed

lemma assign_room_spec:
  assumes "assign_room ra asgs confs = Returns (asgs', confs')"
  shows "\<exists>new more. asgs' = asgs @ new \<and> confs' = confs @ more \<and> assign_room_post ra new more"
proof -
  let ?room = "ra_room ra"
  let ?K = "seatsPerBench_of ?room"
  obtain g where g: "group_into subject (\<lambda>s. s) (ra_students ra) [] = Returns g"
    using assms unfolding assign_room_def by (auto split: outcome.splits)
  define st0 where "st0 = \<lparr>st_groups = g, st_remaining = length (ra_students ra),
                       st_assignments = asgs, st_conflicts = confs\<rparr>"
  define st' where "st' = bench_loop ?room ?K 0 st0"
  define ov where "ov = (if st_remaining st' > 0 then [overflow_conflict ?room] else [])"
  have res: "asgs' = st_assignments st'" "confs' = st_conflicts st' @ ov"
    using assms[symmetric] unfolding assign_room_def g st'_def st0_def ov_def
    by (simp_all add: Let_def)
  from group_into_inv[OF g] have gi: "groups_inv g" "total_len g = length (ra_students ra)"
    "group_mset g = mset (ra_students ra)"
    by (simp_all add: groups_inv_empty)
  have inv0: "seat_inv st0" using gi by (simp add: seat_inv_def st0_def)
  from bench_loop_spec[OF inv0, of ?room ?K 0] obtain new more0 where
    n: "st_assignments st' = st_assignments st0 @ new"
       "st_conflicts st' = st_conflicts st0 @ more0"
       "seat_inv st'"
       "st_remaining st' + length new = st_remaining st0"
       "group_mset (st_groups st') + mset (map a_student new) = group_mset (st_groups st0)"
       "st_remaining st' = st_remaining st0 - benches_left ?room 0 * nat ?K"
       "\<forall>a \<in> set new. a_room_id a = room_id ?room \<and> a_room_name a = room_name ?room
             \<and> 0 < bench_number a"
       "distinct (map (\<lambda>a. (bench_number a, position a)) new)"
       "\<forall>c \<in> set more0. c_type c = Constraint"
       "more0 = [] \<longrightarrow> distinct (map (\<lambda>a. (bench_number a, subject (a_student a))) new)"
    unfolding bench_loop_post_def st'_def by blast
  have ovt: "\<forall>c \<in> set ov. c_type c = Overflow" by (simp add: ov_def overflow_conflict_def)
  have gm: "group_mset (st_groups st') + mset (map a_student new) = mset (ra_students ra)"
    using n(5) gi(3) by (simp add: st0_def)
  have q1: "\<forall>a \<in> set new. a_room_id a = room_id ?room \<and> a_room_name a = room_name ?room"
    using n(7) by simp
  have q3: "mset (map a_student new) \<subseteq># mset (ra_students ra)"
    unfolding gm[symmetric] by simp
  have q4: "\<forall>c \<in> set (more0 @ ov). c_type c = Constraint \<or> c_type c = Overflow"
    using n(9) ovt by auto
  have ot: "c_type (overflow_conflict ?room) = Overflow" by (simp add: overflow_conflict_def)
  have nc: "Overflow \<notin> c_type ` set more0" using n(9) by auto
  have noov: "Overflow \<notin> c_type ` set (more0 @ ov) \<longleftrightarrow> st_remaining st' = 0"
  proof (cases "st_remaining st' > 0")
    case True
    then have "overflow_conflict ?room \<in> set (more0 @ ov)" by (simp add: ov_def)
    then have "c_type (overflow_conflict ?room) \<in> c_type ` set (more0 @ ov)" by (rule imageI)
    then show ?thesis using True ot by simp
  next
    case False
    then have "ov = []" by (simp add: ov_def)
    then show ?thesis using False nc by simp
  qed
  have q5: "Overflow \<notin> c_type ` set (more0 @ ov) \<longrightarrow> mset (map a_student new) = mset (ra_students ra)"
    using noov seat_inv_done[OF n(3)] gm by auto
  have q6: "more0 @ ov = [] \<longrightarrow> distinct (map (\<lambda>a. (bench_number a, subject (a_student a))) new)"
    using n(10) by simp
  have q7: "room_fits ra \<longrightarrow> Overflow \<notin> c_type ` set (more0 @ ov)"
    unfolding noov using n(6) by (simp add: room_fits_def st0_def)
  have "assign_room_post ra new (more0 @ ov)"
    unfolding assign_room_post_def using q1 n(8) q3 q4 q5 q6 q7 by blast
  moreover have "asgs' = asgs @ new" using res(1) n(1) by (simp add: st0_def)
  moreover have "confs' = confs @ (more0 @ ov)" using res(2) n(2) by (simp add: st0_def)
  ultimately show ?thesis by blast
qed


lemma distinct_with_const:
  "distinct (map f xs) \<Longrightarrow> distinct (map (\<lambda>x. (g x, f x)) xs)"
  by (auto simp: distinct_map inj_on_def)

lemma assign_rooms_spec:
  "assign_rooms ras asgs confs = Returns (asgs', confs') \<Longrightarrow>
   \<exists>new more. asgs' = asgs @ new \<and> confs' = confs @ more \<and> assign_rooms_post ras new more"
proof (induction ras arbitrary: asgs confs)
  case Nil
  have "assign_rooms_post [] [] []" by (simp add: assign_rooms_post_def)
  then show ?case using Nil by auto
next
  case (Cons ra ras)
  obtain asgs1 confs1 where r1: "assign_room ra asgs confs = Returns (asgs1, confs1)"
    and r2: "assign_rooms ras asgs1 confs1 = Returns (asgs', confs')"
    using Cons.prems by (auto split: outcome.splits prod.splits)
  from assign_room_spec[OF r1] obtain new1 more1 where
    e1: "asgs1 = asgs @ new1" "confs1 = confs @ more1" and p1: "assign_room_post ra new1 more1"
    by blast
  from Cons.IH[OF r2] obtain new2 more2 where
    e2: "asgs' = asgs1 @ new2" "confs' = confs1 @ more2" and p2: "assign_rooms_post ras new2 more2"
    by blast
  let ?rid = "room_id (ra_room ra)"
  have a1: "\<forall>a \<in> set new1. a_room_id a = ?rid \<and> a_room_name a = room_name (ra_room ra)"
    and a2: "distinct (map (\<lambda>a. (bench_number a, position a)) new1)"
    and a3: "mset (map a_student new1) \<subseteq># mset (ra_students ra)"
    and a4: "\<forall>c \<in> set more1. c_type c = Constraint \<or> c_type c = Overflow"
    and a5: "Overflow \<notin> c_type ` set more1 \<longrightarrow> mset (map a_student new1) = mset (ra_students ra)"
    and a6: "more1 = [] \<longrightarrow> distinct (map (\<lambda>a. (bench_number a, subject (a_student a))) new1)"
    and a7: "room_fits ra \<longrightarrow> Overflow \<notin> c_type ` set more1"
    using p1 unfolding assign_room_post_def by blast+
  have b1: "\<forall>a \<in> set new2. \<exists>ra \<in> set ras. a_room_id a = room_id (ra_room ra)
           \<and> a_room_name a = room_name (ra_room ra) \<and> a_student a \<in> set (ra_students ra)"
    and b2: "distinct (map (\<lambda>ra. room_id (ra_room ra)) ras) \<longrightarrow>
          distinct (map (\<lambda>a. (a_room_id a, bench_number a, position a)) new2)"
    and b3: "\<forall>c \<in> set more2. c_type c = Constraint \<or> c_type c = Overflow"
    and b4: "Overflow \<notin> c_type ` set more2 \<longrightarrow>
          mset (map a_student new2) = mset (concat (map ra_students ras))
        \<and> (\<forall>ra \<in> set ras. \<forall>s \<in> set (ra_students ra). \<exists>a \<in> set new2. a_student a = s
              \<and> a_room_id a = room_id (ra_room ra) \<and> a_room_name a = room_name (ra_room ra))"
    and b5: "more2 = [] \<longrightarrow> distinct (map (\<lambda>ra. room_id (ra_room ra)) ras) \<longrightarrow>
          distinct (map (\<lambda>a. (a_room_id a, bench_number a, subject (a_student a))) new2)"
    and b6: "(\<forall>ra \<in> set ras. room_fits ra) \<longrightarrow> Overflow \<notin> c_type ` set more2"
    using p2 unfolding assign_rooms_post_def by blast+
  have in1: "\<And>a. a \<in> set new1 \<Longrightarrow> a_student a \<in> set (ra_students ra)"
  proof -
    fix a assume "a \<in> set new1"
    then have "a_student a \<in># mset (map a_student new1)" by simp
    then have "a_student a \<in># mset (ra_students ra)" by (rule mset_subset_eqD[OF a3])
    then show "a_student a \<in> set (ra_students ra)" by simp
  qed
  have ids2: "\<And>y. y \<in> set new2 \<Longrightarrow> a_room_id y \<in> set (map (\<lambda>ra. room_id (ra_room ra)) ras)"
    using b1 by auto
  have g1: "\<forall>a \<in> set (new1 @ new2). \<exists>ra' \<in> set (ra # ras). a_room_id a = room_id (ra_room ra')
           \<and> a_room_name a = room_name (ra_room ra') \<and> a_student a \<in> set (ra_students ra')"
    using a1 in1 b1 by auto
  have g2: "distinct (map (\<lambda>ra. room_id (ra_room ra)) (ra # ras)) \<longrightarrow>
          distinct (map (\<lambda>a. (a_room_id a, bench_number a, position a)) (new1 @ new2))"
  proof
    assume d: "distinct (map (\<lambda>ra. room_id (ra_room ra)) (ra # ras))"
    then have nin: "?rid \<notin> set (map (\<lambda>ra. room_id (ra_room ra)) ras)"
      and d': "distinct (map (\<lambda>ra. room_id (ra_room ra)) ras)" by simp_all
    have d1: "distinct (map (\<lambda>a. (a_room_id a, bench_number a, position a)) new1)"
      using distinct_with_const[OF a2, of a_room_id] .
    have d2: "distinct (map (\<lambda>a. (a_room_id a, bench_number a, position a)) new2)"
      using b2 d' by simp
    show "distinct (map (\<lambda>a. (a_room_id a, bench_number a, position a)) (new1 @ new2))"
    proof (rule distinct_map_append[OF d1 d2])
      fix x y assume "x \<in> set new1" "y \<in> set new2"
      then have "a_room_id x \<noteq> a_room_id y" using a1 ids2[of y] nin by auto
      then show "(a_room_id x, bench_number x, position x) \<noteq> (a_room_id y, bench_number y, position y)"
        by simp
    qed
  qed
  have g3: "\<forall>c \<in> set (more1 @ more2). c_type c = Constraint \<or> c_type c = Overflow"
    using a4 b3 by auto
  have g4: "Overflow \<notin> c_type ` set (more1 @ more2) \<longrightarrow>
          mset (map a_student (new1 @ new2)) = mset (concat (map ra_students (ra # ras)))
        \<and> (\<forall>ra' \<in> set (ra # ras). \<forall>s \<in> set (ra_students ra'). \<exists>a \<in> set (new1 @ new2). a_student a = s
              \<and> a_room_id a = room_id (ra_room ra') \<and> a_room_name a = room_name (ra_room ra'))"
  proof
    assume "Overflow \<notin> c_type ` set (more1 @ more2)"
    then have o1: "Overflow \<notin> c_type ` set more1" and o2: "Overflow \<notin> c_type ` set more2"
      by auto
    have m1: "mset (map a_student new1) = mset (ra_students ra)" using a5 o1 by simp
    have m2: "mset (map a_student new2) = mset (concat (map ra_students ras))"
      and ex2: "\<forall>ra \<in> set ras. \<forall>s \<in> set (ra_students ra). \<exists>a \<in> set new2. a_student a = s
              \<and> a_room_id a = room_id (ra_room ra) \<and> a_room_name a = room_name (ra_room ra)"
      using b4 o2 by simp_all
    have ex1: "\<forall>s \<in> set (ra_students ra). \<exists>a \<in> set new1. a_student a = s
              \<and> a_room_id a = ?rid \<and> a_room_name a = room_name (ra_room ra)"
    proof
      fix s assume "s \<in> set (ra_students ra)"
      then have "s \<in># mset (map a_student new1)" unfolding m1 by simp
      then have "s \<in> a_student ` set new1" by simp
      then show "\<exists>a \<in> set new1. a_student a = s
              \<and> a_room_id a = ?rid \<and> a_room_name a = room_name (ra_room ra)"
        using a1 by auto
    qed
    have "mset (map a_student (new1 @ new2)) = mset (concat (map ra_students (ra # ras)))"
      using m1 m2 by simp
    moreover have "\<forall>ra' \<in> set (ra # ras). \<forall>s \<in> set (ra_students ra'). \<exists>a \<in> set (new1 @ new2). a_student a = s
              \<and> a_room_id a = room_id (ra_room ra') \<and> a_room_name a = room_name (ra_room ra')"
    proof (intro ballI)
      fix ra' s assume r: "ra' \<in> set (ra # ras)" and s: "s \<in> set (ra_students ra')"
      show "\<exists>a \<in> set (new1 @ new2). a_student a = s
              \<and> a_room_id a = room_id (ra_room ra') \<and> a_room_name a = room_name (ra_room ra')"
      proof (cases "ra' = ra")
        case True
        then obtain a where "a \<in> set new1" "a_student a = s" "a_room_id a = ?rid"
          "a_room_name a = room_name (ra_room ra)" using ex1 s by blast
        then show ?thesis using True by auto
      next
        case False
        then have "ra' \<in> set ras" using r by simp
        then obtain a where "a \<in> set new2" "a_student a = s" "a_room_id a = room_id (ra_room ra')"
          "a_room_name a = room_name (ra_room ra')" using ex2 s by blast
        then show ?thesis by auto
      qed
    qed
    ultimately show "mset (map a_student (new1 @ new2)) = mset (concat (map ra_students (ra # ras)))
        \<and> (\<forall>ra' \<in> set (ra # ras). \<forall>s \<in> set (ra_students ra'). \<exists>a \<in> set (new1 @ new2). a_student a = s
              \<and> a_room_id a = room_id (ra_room ra') \<and> a_room_name a = room_name (ra_room ra'))"
      by blast
  qed
  have g5: "more1 @ more2 = [] \<longrightarrow> distinct (map (\<lambda>ra. room_id (ra_room ra)) (ra # ras)) \<longrightarrow>
          distinct (map (\<lambda>a. (a_room_id a, bench_number a, subject (a_student a))) (new1 @ new2))"
  proof (intro impI)
    assume e: "more1 @ more2 = []"
      and d: "distinct (map (\<lambda>ra. room_id (ra_room ra)) (ra # ras))"
    then have nin: "?rid \<notin> set (map (\<lambda>ra. room_id (ra_room ra)) ras)"
      and d': "distinct (map (\<lambda>ra. room_id (ra_room ra)) ras)" by simp_all
    have s1: "distinct (map (\<lambda>a. (bench_number a, subject (a_student a))) new1)"
      using a6 e by simp
    have d1: "distinct (map (\<lambda>a. (a_room_id a, bench_number a, subject (a_student a))) new1)"
      using distinct_with_const[OF s1, of a_room_id] .
    have d2: "distinct (map (\<lambda>a. (a_room_id a, bench_number a, subject (a_student a))) new2)"
      using b5 e d' by simp
    show "distinct (map (\<lambda>a. (a_room_id a, bench_number a, subject (a_student a))) (new1 @ new2))"
    proof (rule distinct_map_append[OF d1 d2])
      fix x y assume "x \<in> set new1" "y \<in> set new2"
      then have "a_room_id x \<noteq> a_room_id y" using a1 ids2[of y] nin by auto
      then show "(a_room_id x, bench_number x, subject (a_student x))
          \<noteq> (a_room_id y, bench_number y, subject (a_student y))"
        by simp
    qed
  qed
  have g6: "(\<forall>ra' \<in> set (ra # ras). room_fits ra') \<longrightarrow> Overflow \<notin> c_type ` set (more1 @ more2)"
    using a7 b6 by auto
  have "assign_rooms_post (ra # ras) (new1 @ new2) (more1 @ more2)"
    unfolding assign_rooms_post_def using g1 g2 g3 g4 g5 g6 by blast
  moreover have "asgs' = asgs @ (new1 @ new2)" using e1 e2 by simp
  moreover have "confs' = confs @ (more1 @ more2)" using e1 e2 by simp
  ultimately show ?case by blast
qed


section \<open>Facts about the room distribution\<close>


lemma find_idx_Some:
  "find_idx P xs = Some i \<Longrightarrow> i < length xs \<and> P (xs ! i) \<and> (\<forall>j<i. \<not> P (xs ! j))"
proof (induction xs arbitrary: i)
  case Nil
  then show ?case by simp
next
  case (Cons x xs)
  show ?case
  proof (cases "P x")
    case True
    then show ?thesis using Cons.prems by simp
  next
    case False
    then obtain i' where i': "find_idx P xs = Some i'" "i = Suc i'"
      using Cons.prems by auto
    from Cons.IH[OF i'(1)] show ?thesis using False i'(2) by (auto simp: less_Suc_eq_0_disj)
  qed
qed

lemma find_idx_map: "find_idx P (map f xs) = find_idx (P \<circ> f) xs"
  by (induction xs) auto

lemma find_idx_matches:
  "find_idx (matches_room p) ras = find_idx (room_matches p) (map ra_room ras)"
proof -
  have "matches_room p = room_matches p \<circ> ra_room"
    by (intro ext) (simp add: matches_room_def room_matches_def)
  then show ?thesis by (simp add: find_idx_map)
qed

lemma length_push [simp]: "length (push_student ras i s) = length ras"
  by (simp add: push_student_def)

lemma nth_push:
  "j < length ras \<Longrightarrow> push_student ras i s ! j =
     (if j = i then (ras ! i)\<lparr>ra_students := ra_students (ras ! i) @ [s]\<rparr> else ras ! j)"
  by (simp add: push_student_def)

lemma map_room_push [simp]: "map ra_room (push_student ras i s) = map ra_room ras"
  by (rule nth_equalityI) (simp_all add: nth_push)

lemma map_capacity_push [simp]: "map ra_capacity (push_student ras i s) = map ra_capacity ras"
  by (rule nth_equalityI) (simp_all add: nth_push)

lemma students_push:
  "j < length ras \<Longrightarrow> ra_students (push_student ras i s ! j) =
     (if j = i then ra_students (ras ! i) @ [s] else ra_students (ras ! j))"
  by (simp add: nth_push)

lemma concat_update_students:
  "i < length ras \<Longrightarrow>
   mset (concat (map ra_students (push_student ras i s))) = mset (concat (map ra_students ras)) + {#s#}"
proof (induction ras arbitrary: i)
  case Nil
  then show ?case by simp
next
  case (Cons r ras)
  show ?case
  proof (cases i)
    case 0
    then show ?thesis by (simp add: push_student_def)
  next
    case (Suc i')
    then have "i' < length ras" using Cons.prems by simp
    from Cons.IH[OF this] show ?thesis using Suc by (simp add: push_student_def)
  qed
qed

lemma allocated_mset: "allocated ras = size (mset (concat (map ra_students ras)))"
  by (induction ras) (simp_all add: allocated_def)

lemma allocated_push: "i < length ras \<Longrightarrow> allocated (push_student ras i s) = Suc (allocated ras)"
  by (simp add: allocated_mset concat_update_students)

lemma cap_sum_map: "map ra_capacity ras = map ra_capacity ras' \<Longrightarrow> cap_sum ras = cap_sum ras'"
proof -
  assume e: "map ra_capacity ras = map ra_capacity ras'"
  have "\<And>ras. cap_sum ras = foldl js_add (Some 0) (map ra_capacity ras)"
    by (simp add: cap_sum_def foldl_map)
  then show ?thesis using e by simp
qed

lemma cap_sum_push [simp]: "cap_sum (push_student ras i s) = cap_sum ras"
  by (rule cap_sum_map) simp

lemma cap_ok_push:
  assumes "\<forall>ra \<in> set ras. cap_ok ra" "i < length ras" "\<not> ra_full (ras ! i) \<or> has_room_left (ras ! i)"
  shows "\<forall>ra \<in> set (push_student ras i s). cap_ok ra"
proof -
  have "cap_ok ((ras ! i)\<lparr>ra_students := ra_students (ras ! i) @ [s]\<rparr>)"
    using assms(3) by (auto simp: cap_ok_def ra_full_def has_room_left_def js_ge_def js_lt_def split: option.splits)
  then show ?thesis
    using assms(1) set_update_subset_insert[of ras i] unfolding push_student_def
    by blast
qed

lemma pref_target_ras:
  "pref_target (map ra_room ras) s =
     (case preferred_room s of None \<Rightarrow> None
      | Some p \<Rightarrow> if p = [] then None else find_idx (matches_room p) ras)"
  by (simp add: pref_target_def find_idx_matches split: option.splits)

lemma pref_target_bound: "pref_target rooms s = Some i \<Longrightarrow> i < length rooms"
  by (auto simp: pref_target_def split: option.splits if_splits dest: find_idx_Some)

lemma take_cap_keep:
  "\<not> js_lt (Some (int (length (take_cap c F)))) c \<Longrightarrow> take_cap c (F @ [s]) = take_cap c F"
  by (cases c) (auto simp: take_cap_def js_lt_def min_def split: if_splits)

lemma take_cap_snoc:
  "js_lt (Some (int (length (take_cap c F)))) c \<Longrightarrow> take_cap c (F @ [s]) = take_cap c F @ [s]"
  by (cases c) (auto simp: take_cap_def js_lt_def min_def split: if_splits)

lemma preferred_pass_skip:
  "pref_target (map ra_room ras) s = None \<or>
   (\<exists>i. pref_target (map ra_room ras) s = Some i \<and> \<not> has_room_left (ras ! i)) \<Longrightarrow>
   preferred_pass (s # ss) ras un = preferred_pass ss ras (un @ [s])"
  by (auto simp: pref_target_ras split: option.splits if_splits)

lemma preferred_pass_push:
  "pref_target (map ra_room ras) s = Some i \<Longrightarrow> has_room_left (ras ! i) \<Longrightarrow>
   preferred_pass (s # ss) ras un = preferred_pass ss (push_student ras i s) un"
  by (auto simp: pref_target_ras split: option.splits if_splits)

lemma preferred_pass_spec:
  assumes "preferred_pass ss ras un = (ras', un')"
    and "\<forall>j<length ras. ra_students (ras ! j) =
           take_cap (ra_capacity (ras ! j)) (filter (\<lambda>s. pref_target (map ra_room ras) s = Some j) pre)"
  shows "length ras' = length ras \<and> map ra_room ras' = map ra_room ras
    \<and> map ra_capacity ras' = map ra_capacity ras
    \<and> (\<forall>j<length ras. ra_students (ras' ! j) =
           take_cap (ra_capacity (ras ! j)) (filter (\<lambda>s. pref_target (map ra_room ras) s = Some j) (pre @ ss)))
    \<and> mset (concat (map ra_students ras')) + mset un'
        = mset (concat (map ra_students ras)) + mset un + mset ss
    \<and> ((\<forall>ra \<in> set ras. cap_ok ra) \<longrightarrow> (\<forall>ra \<in> set ras'. cap_ok ra))"
  using assms
proof (induction ss arbitrary: ras un pre)
  case Nil
  then show ?case by simp
next
  case (Cons s ss)
  let ?t = "pref_target (map ra_room ras) s"
  let ?F = "\<lambda>j xs. filter (\<lambda>s. pref_target (map ra_room ras) s = Some j) xs"
  show ?case
  proof (cases "\<exists>i. ?t = Some i \<and> has_room_left (ras ! i)")
    case True
    then obtain i where i: "?t = Some i" "has_room_left (ras ! i)" by blast
    have il: "i < length ras" using pref_target_bound[OF i(1)] by simp
    let ?ras1 = "push_student ras i s"
    have step: "preferred_pass ss ?ras1 un = (ras', un')"
      using Cons.prems(1) preferred_pass_push[OF i] by simp
    have cap_i: "js_lt (Some (int (length (take_cap (ra_capacity (ras ! i)) (?F i pre))))) (ra_capacity (ras ! i))"
      using i(2) Cons.prems(2) il by (simp add: has_room_left_def)
    have hyp1: "\<forall>j<length ?ras1. ra_students (?ras1 ! j) =
           take_cap (ra_capacity (?ras1 ! j)) (filter (\<lambda>s. pref_target (map ra_room ?ras1) s = Some j) (pre @ [s]))"
    proof (intro allI impI)
      fix j assume j: "j < length ?ras1"
      then have jl: "j < length ras" by simp
      have c: "ra_capacity (?ras1 ! j) = ra_capacity (ras ! j)" using jl by (simp add: nth_push)
      show "ra_students (?ras1 ! j) =
           take_cap (ra_capacity (?ras1 ! j)) (filter (\<lambda>s. pref_target (map ra_room ?ras1) s = Some j) (pre @ [s]))"
      proof (cases "j = i")
        case True
        then show ?thesis
          using Cons.prems(2) jl i(1) take_cap_snoc[OF cap_i, of s] c
          by (simp add: students_push)
      next
        case False
        then show ?thesis
          using Cons.prems(2) jl i(1) c by (simp add: students_push)
      qed
    qed
    from Cons.IH[OF step hyp1]
    have r: "length ras' = length ?ras1" "map ra_room ras' = map ra_room ?ras1"
      "map ra_capacity ras' = map ra_capacity ?ras1"
      "\<forall>j<length ?ras1. ra_students (ras' ! j) =
           take_cap (ra_capacity (?ras1 ! j)) (filter (\<lambda>s. pref_target (map ra_room ?ras1) s = Some j) ((pre @ [s]) @ ss))"
      "mset (concat (map ra_students ras')) + mset un'
        = mset (concat (map ra_students ?ras1)) + mset un + mset ss"
      "(\<forall>ra \<in> set ?ras1. cap_ok ra) \<longrightarrow> (\<forall>ra \<in> set ras'. cap_ok ra)"
      by blast+
    have g4: "\<forall>j<length ras. ra_students (ras' ! j) =
           take_cap (ra_capacity (ras ! j)) (?F j (pre @ s # ss))"
    proof (intro allI impI)
      fix j assume jl: "j < length ras"
      have c: "ra_capacity (?ras1 ! j) = ra_capacity (ras ! j)" using jl by (simp add: nth_push)
      show "ra_students (ras' ! j) = take_cap (ra_capacity (ras ! j)) (?F j (pre @ s # ss))"
        using r(4) jl c by simp
    qed
    have g5: "mset (concat (map ra_students ras')) + mset un'
        = mset (concat (map ra_students ras)) + mset un + mset (s # ss)"
      using r(5) concat_update_students[OF il, of s] by simp
    have g6: "(\<forall>ra \<in> set ras. cap_ok ra) \<longrightarrow> (\<forall>ra \<in> set ras'. cap_ok ra)"
      using r(6) cap_ok_push[of ras i s] il i(2) by blast
    show ?thesis using r(1,2,3) g4 g5 g6 by simp
  next
    case False
    then have sk: "?t = None \<or> (\<exists>i. ?t = Some i \<and> \<not> has_room_left (ras ! i))"
      by (cases ?t) auto
    have step: "preferred_pass ss ras (un @ [s]) = (ras', un')"
      using Cons.prems(1) preferred_pass_skip[OF sk] by simp
    have hyp1: "\<forall>j<length ras. ra_students (ras ! j) =
           take_cap (ra_capacity (ras ! j)) (?F j (pre @ [s]))"
    proof (intro allI impI)
      fix j assume jl: "j < length ras"
      show "ra_students (ras ! j) = take_cap (ra_capacity (ras ! j)) (?F j (pre @ [s]))"
      proof (cases "?t = Some j")
        case True
        then have nl: "\<not> has_room_left (ras ! j)" using False by simp
        have "\<not> js_lt (Some (int (length (take_cap (ra_capacity (ras ! j)) (?F j pre))))) (ra_capacity (ras ! j))"
          using nl Cons.prems(2) jl by (simp add: has_room_left_def)
        from take_cap_keep[OF this, of s] show ?thesis
          using Cons.prems(2) jl True by simp
      next
        case False
        then show ?thesis using Cons.prems(2) jl by simp
      qed
    qed
    from Cons.IH[OF step hyp1]
    have r: "length ras' = length ras" "map ra_room ras' = map ra_room ras"
      "map ra_capacity ras' = map ra_capacity ras"
      "\<forall>j<length ras. ra_students (ras' ! j) =
           take_cap (ra_capacity (ras ! j)) (?F j ((pre @ [s]) @ ss))"
      "mset (concat (map ra_students ras')) + mset un'
        = mset (concat (map ra_students ras)) + mset (un @ [s]) + mset ss"
      "(\<forall>ra \<in> set ras. cap_ok ra) \<longrightarrow> (\<forall>ra \<in> set ras'. cap_ok ra)"
      by blast+
    show ?thesis using r by simp
  qed
qed

lemma skip_full_result_aux:
  assumes "skip_full ras idx = Some k"
  shows "idx < length ras \<longrightarrow> k < length ras \<and> \<not> ra_full (ras ! k)"
proof (rule skip_full.raw_induct[where P = "\<lambda>ras idx k. idx < length ras \<longrightarrow> k < length ras \<and> \<not> ra_full (ras ! k)", OF _ assms])
  fix sf :: "room_assignment list \<Rightarrow> nat \<Rightarrow> nat option" and ras idx k
  assume IH: "\<And>ras idx k. sf ras idx = Some k \<Longrightarrow> idx < length ras \<longrightarrow> k < length ras \<and> \<not> ra_full (ras ! k)"
    and eq: "(if ra_full (ras ! idx) then sf ras ((idx + 1) mod length ras) else Some idx) = Some k"
  show "idx < length ras \<longrightarrow> k < length ras \<and> \<not> ra_full (ras ! k)"
  proof
    assume il: "idx < length ras"
    show "k < length ras \<and> \<not> ra_full (ras ! k)"
    proof (cases "ra_full (ras ! idx)")
      case True
      then have "sf ras ((idx + 1) mod length ras) = Some k" using eq by simp
      moreover have "(idx + 1) mod length ras < length ras"
        using il by (intro mod_less_divisor) auto
      ultimately show ?thesis using IH by blast
    next
      case False
      then show ?thesis using eq il by simp
    qed
  qed
qed

lemma skip_full_result:
  "skip_full ras idx = Some k \<Longrightarrow> idx < length ras \<Longrightarrow> k < length ras \<and> \<not> ra_full (ras ! k)"
  using skip_full_result_aux by blast

lemma skip_full_steps:
  "idx < length ras \<Longrightarrow> (\<forall>i<m. ra_full (ras ! ((idx + i) mod length ras))) \<Longrightarrow>
   \<not> ra_full (ras ! ((idx + m) mod length ras)) \<Longrightarrow>
   skip_full ras idx = Some ((idx + m) mod length ras)"
proof (induction m arbitrary: idx)
  case 0
  then show ?case by (subst skip_full.simps) simp
next
  case (Suc m)
  let ?n = "length ras"
  let ?idx' = "(idx + 1) mod ?n"
  have full0: "ra_full (ras ! idx)" using Suc.prems(2)[rule_format, of 0] Suc.prems(1) by simp
  have l: "?idx' < ?n" using Suc.prems(1) by (intro mod_less_divisor) auto
  have sh: "\<And>i. (?idx' + i) mod ?n = (idx + Suc i) mod ?n"
    by (simp add: mod_add_left_eq)
  have a: "\<forall>i<m. ra_full (ras ! ((?idx' + i) mod ?n))"
    using Suc.prems(2) unfolding sh by auto
  have b: "\<not> ra_full (ras ! ((?idx' + m) mod ?n))"
    using Suc.prems(3) unfolding sh .
  have "skip_full ras idx = skip_full ras ?idx'"
    using full0 by (subst skip_full.simps) simp
  also have "\<dots> = Some ((?idx' + m) mod ?n)" using Suc.IH[OF l a b] .
  finally show ?case unfolding sh .
qed

lemma skip_full_terminates:
  assumes "j < length ras" "\<not> ra_full (ras ! j)" "idx < length ras"
  shows "\<exists>k. skip_full ras idx = Some k"
proof -
  let ?n = "length ras"
  let ?P = "\<lambda>m. \<not> ra_full (ras ! ((idx + m) mod ?n))"
  have "(idx + (?n - idx + j)) mod ?n = j" using assms(1,3) by simp
  then have "?P (?n - idx + j)" using assms(2) by simp
  then obtain m where m: "?P m" "\<forall>i<m. \<not> ?P i"
    using exists_least_iff[of ?P] by blast
  then have "skip_full ras idx = Some ((idx + m) mod ?n)"
    using skip_full_steps[OF assms(3), of m] by simp
  then show ?thesis by blast
qed

lemma cap_sum_snoc: "cap_sum (ras @ [ra]) = js_add (cap_sum ras) (ra_capacity ra)"
  by (simp add: cap_sum_def)

lemma allocated_snoc: "allocated (ras @ [ra]) = allocated ras + length (ra_students ra)"
  by (simp add: allocated_def)

lemma all_full_cap:
  "\<forall>ra \<in> set ras. ra_full ra \<Longrightarrow> \<exists>C. cap_sum ras = Some C \<and> C \<le> int (allocated ras)"
proof (induction ras rule: rev_induct)
  case Nil
  then show ?case by (simp add: cap_sum_def allocated_def)
next
  case (snoc ra ras)
  then obtain C where C: "cap_sum ras = Some C" "C \<le> int (allocated ras)" by auto
  have "ra_full ra" using snoc.prems by simp
  then obtain c where c: "ra_capacity ra = Some c" "c \<le> int (length (ra_students ra))"
    by (auto simp: ra_full_def js_ge_def split: option.splits)
  show ?case using C c by (simp add: cap_sum_snoc allocated_snoc js_add_def)
qed

lemma some_room_left:
  assumes "\<not> js_gt (Some (int (allocated ras + Suc n))) (cap_sum ras)"
  shows "\<exists>j<length ras. \<not> ra_full (ras ! j)"
proof (rule ccontr)
  assume "\<not> (\<exists>j<length ras. \<not> ra_full (ras ! j))"
  then have "\<forall>ra \<in> set ras. ra_full ra" by (auto simp: in_set_conv_nth)
  from all_full_cap[OF this] obtain C where "cap_sum ras = Some C" "C \<le> int (allocated ras)"
    by blast
  then show False using assms by (simp add: js_gt_def js_lt_def)
qed

lemma round_robin_returns:
  assumes "\<not> js_gt (Some (int (allocated ras + length ss))) (cap_sum ras)"
    and "idx < length ras \<or> ras = []"
  shows "\<exists>ras'. round_robin ss ras idx = Returns ras'"
  using assms
proof (induction ss arbitrary: ras idx)
  case Nil
  then show ?case by simp
next
  case (Cons s ss)
  from some_room_left[of ras "length ss"] Cons.prems(1)
  obtain j where j: "j < length ras" "\<not> ra_full (ras ! j)" by auto
  then have ne: "ras \<noteq> []" and il: "idx < length ras" using Cons.prems(2) by auto
  from skip_full_terminates[OF j il] obtain k where k: "skip_full ras idx = Some k" by blast
  have kl: "k < length ras" using skip_full_result[OF k il] by simp
  have inv: "\<not> js_gt (Some (int (allocated (push_student ras k s) + length ss))) (cap_sum (push_student ras k s))"
    using Cons.prems(1) by (simp add: allocated_push[OF kl])
  have il': "(k + 1) mod length (push_student ras k s) < length (push_student ras k s) \<or> push_student ras k s = []"
    using ne by simp
  from Cons.IH[OF inv il'] show ?case using ne k by simp
qed

lemma round_robin_spec:
  assumes "round_robin ss ras idx = Returns ras'" "idx < length ras \<or> ras = []"
  shows "length ras' = length ras \<and> map ra_room ras' = map ra_room ras
    \<and> map ra_capacity ras' = map ra_capacity ras
    \<and> (\<forall>j<length ras. \<exists>rr. ra_students (ras' ! j) = ra_students (ras ! j) @ rr)
    \<and> mset (concat (map ra_students ras')) = mset (concat (map ra_students ras)) + mset ss
    \<and> ((\<forall>ra \<in> set ras. cap_ok ra) \<longrightarrow> (\<forall>ra \<in> set ras'. cap_ok ra))"
  using assms
proof (induction ss arbitrary: ras idx)
  case Nil
  then show ?case by simp
next
  case (Cons s ss)
  have ne: "ras \<noteq> []" using Cons.prems(1) by (auto split: if_splits)
  then have il: "idx < length ras" using Cons.prems(2) by simp
  obtain k where k: "skip_full ras idx = Some k"
    and step: "round_robin ss (push_student ras k s) ((k + 1) mod length ras) = Returns ras'"
    using Cons.prems(1) ne by (auto split: option.splits)
  have kl: "k < length ras" and nf: "\<not> ra_full (ras ! k)" using skip_full_result[OF k il] by simp_all
  let ?ras1 = "push_student ras k s"
  have il': "(k + 1) mod length ras < length ?ras1 \<or> ?ras1 = []" using ne by simp
  from Cons.IH[OF step il']
  have r: "length ras' = length ?ras1" "map ra_room ras' = map ra_room ?ras1"
    "map ra_capacity ras' = map ra_capacity ?ras1"
    "\<forall>j<length ?ras1. \<exists>rr. ra_students (ras' ! j) = ra_students (?ras1 ! j) @ rr"
    "mset (concat (map ra_students ras')) = mset (concat (map ra_students ?ras1)) + mset ss"
    "(\<forall>ra \<in> set ?ras1. cap_ok ra) \<longrightarrow> (\<forall>ra \<in> set ras'. cap_ok ra)"
    by blast+
  have g4: "\<forall>j<length ras. \<exists>rr. ra_students (ras' ! j) = ra_students (ras ! j) @ rr"
  proof (intro allI impI)
    fix j assume jl: "j < length ras"
    then obtain rr where rr: "ra_students (ras' ! j) = ra_students (?ras1 ! j) @ rr"
      using r(4) by auto
    show "\<exists>rr. ra_students (ras' ! j) = ra_students (ras ! j) @ rr"
      using rr jl by (cases "j = k") (simp_all add: students_push)
  qed
  have g5: "mset (concat (map ra_students ras')) = mset (concat (map ra_students ras)) + mset (s # ss)"
    using r(5) concat_update_students[OF kl, of s] by simp
  have g6: "(\<forall>ra \<in> set ras. cap_ok ra) \<longrightarrow> (\<forall>ra \<in> set ras'. cap_ok ra)"
    using r(6) cap_ok_push[of ras k s] kl nf by blast
  show ?case using r(1,2,3) g4 g5 g6 by simp
qed

lemma js_sum_foldl_None: "foldl js_add None xs = None"
  by (induction xs) (simp_all add: js_add_def)

lemma cap_sum_init: "cap_sum (init_roomAssignments rooms) = totalCapacity rooms"
  by (simp add: cap_sum_def totalCapacity_def init_roomAssignments_def foldl_map)

lemma init_facts:
  "length (init_roomAssignments rooms) = length rooms"
  "map ra_room (init_roomAssignments rooms) = rooms"
  "map ra_capacity (init_roomAssignments rooms) = map capacity_of rooms"
  "concat (map ra_students (init_roomAssignments rooms)) = []"
  "j < length rooms \<Longrightarrow> ra_students (init_roomAssignments rooms ! j) = []"
  by (simp_all add: init_roomAssignments_def comp_def)

section \<open>The distribution and the whole run\<close>


lemma take_cap_Nil [simp]: "take_cap c [] = []"
  by (simp add: take_cap_def split: option.splits)

lemma distribute_spec:
  assumes "distribute students rooms = Returns ras"
  shows "length ras = length rooms \<and> map ra_room ras = rooms
    \<and> map ra_capacity ras = map capacity_of rooms
    \<and> (\<forall>j<length rooms. \<exists>rr. ra_students (ras ! j) =
           take_cap (capacity_of (rooms ! j)) (filter (\<lambda>s. pref_target rooms s = Some j) students) @ rr)
    \<and> mset (concat (map ra_students ras)) = mset students
    \<and> ((\<forall>r \<in> set rooms. well_formed_room r) \<longrightarrow> (\<forall>ra \<in> set ras. cap_ok ra))"
proof -
  let ?init = "init_roomAssignments rooms"
  obtain ras1 un where pp: "preferred_pass students ?init [] = (ras1, un)"
    by (cases "preferred_pass students ?init []")
  have rr: "round_robin un ras1 0 = Returns ras"
    using assms pp by (simp add: distribute_def)
  have hyp: "\<forall>j<length ?init. ra_students (?init ! j) =
           take_cap (ra_capacity (?init ! j)) (filter (\<lambda>s. pref_target (map ra_room ?init) s = Some j) [])"
    by (simp add: init_facts)
  from preferred_pass_spec[OF pp hyp]
  have p: "length ras1 = length rooms" "map ra_room ras1 = rooms"
    "map ra_capacity ras1 = map capacity_of rooms"
    "\<forall>j<length rooms. ra_students (ras1 ! j) =
           take_cap (ra_capacity (?init ! j)) (filter (\<lambda>s. pref_target rooms s = Some j) students)"
    "mset (concat (map ra_students ras1)) + mset un = mset students"
    "(\<forall>ra \<in> set ?init. cap_ok ra) \<longrightarrow> (\<forall>ra \<in> set ras1. cap_ok ra)"
    by (simp_all add: init_facts)
  have i0: "0 < length ras1 \<or> ras1 = []" by auto
  from round_robin_spec[OF rr i0]
  have r: "length ras = length ras1" "map ra_room ras = map ra_room ras1"
    "map ra_capacity ras = map ra_capacity ras1"
    "\<forall>j<length ras1. \<exists>rr. ra_students (ras ! j) = ra_students (ras1 ! j) @ rr"
    "mset (concat (map ra_students ras)) = mset (concat (map ra_students ras1)) + mset un"
    "(\<forall>ra \<in> set ras1. cap_ok ra) \<longrightarrow> (\<forall>ra \<in> set ras. cap_ok ra)"
    by blast+
  have ci: "\<And>j. j < length rooms \<Longrightarrow> ra_capacity (?init ! j) = capacity_of (rooms ! j)"
    by (simp add: init_roomAssignments_def)
  have g4: "\<forall>j<length rooms. \<exists>rr. ra_students (ras ! j) =
           take_cap (capacity_of (rooms ! j)) (filter (\<lambda>s. pref_target rooms s = Some j) students) @ rr"
    using r(4) p(1,4) ci by simp
  have wf0: "(\<forall>r \<in> set rooms. well_formed_room r) \<longrightarrow> (\<forall>ra \<in> set ?init. cap_ok ra)"
    by (auto simp: init_roomAssignments_def cap_ok_def capacity_of_def js_mul_def well_formed_room_def
          split: option.splits)
  show ?thesis using r(1,2,3) p(1,2,3,5) g4 r(5) p(6) r(6) wf0 by simp
qed

lemma distribute_returns:
  assumes "\<not> js_gt (Some (int (length students))) (totalCapacity rooms)"
  shows "\<exists>ras. distribute students rooms = Returns ras"
proof -
  let ?init = "init_roomAssignments rooms"
  obtain ras1 un where pp: "preferred_pass students ?init [] = (ras1, un)"
    by (cases "preferred_pass students ?init []")
  have hyp: "\<forall>j<length ?init. ra_students (?init ! j) =
           take_cap (ra_capacity (?init ! j)) (filter (\<lambda>s. pref_target (map ra_room ?init) s = Some j) [])"
    by (simp add: init_facts)
  from preferred_pass_spec[OF pp hyp]
  have p: "map ra_capacity ras1 = map ra_capacity ?init"
    "mset (concat (map ra_students ras1)) + mset un = mset students"
    by (simp_all add: init_facts)
  have "size (mset (concat (map ra_students ras1)) + mset un) = size (mset students)"
    using p(2) by simp
  then have al: "allocated ras1 + length un = length students"
    by (simp add: allocated_mset)
  have cs: "cap_sum ras1 = totalCapacity rooms"
    using cap_sum_map[OF p(1)] by (simp add: cap_sum_init)
  have inv: "\<not> js_gt (Some (int (allocated ras1 + length un))) (cap_sum ras1)"
    using assms unfolding al cs .
  have i0: "0 < length ras1 \<or> ras1 = []" by auto
  from round_robin_returns[OF inv i0] show ?thesis using pp by (simp add: distribute_def)
qed

lemma place_all_spec:
  assumes "place_all ps rooms = Returns r"
  shows "\<exists>ras. distribute ps rooms = Returns ras
     \<and> assign_rooms ras [] [] = Returns (assignments r, conflicts (diags r))
     \<and> success r = (conflicts (diags r) = []) \<and> feasible (diags r)"
  using assms unfolding place_all_def
  by (auto split: outcome.splits prod.splits)

lemma schedule_success:
  assumes "schedule students rooms opts = Returns r" "success r"
  shows "\<exists>ps ras. mset ps = mset students \<and> distribute ps rooms = Returns ras
     \<and> assign_rooms ras [] [] = Returns (assignments r, []) \<and> conflicts (diags r) = []"
proof -
  from schedule_cases[OF assms(1)] assms(2)
  obtain ps where ps: "mset ps = mset students" "greedyPairScheduler ps rooms = Returns r"
    by (auto simp: validation_result_def)
  from greedy_cases[OF ps(2)] assms(2) have pa: "place_all ps rooms = Returns r"
    by (auto simp: capacity_result_def infeasible_result_def)
  from place_all_spec[OF pa] assms(2) ps(1) show ?thesis by auto
qed

section \<open>Properties of a successful run\<close>


lemma success_run:
  assumes "schedule students rooms opts = Returns r" "success r"
  shows "\<exists>ras. map ra_room ras = rooms
     \<and> mset (concat (map ra_students ras)) = mset students
     \<and> assign_rooms_post ras (assignments r) []"
proof -
  from schedule_success[OF assms] obtain ps ras where
    ps: "mset ps = mset students" and d: "distribute ps rooms = Returns ras"
    and a: "assign_rooms ras [] [] = Returns (assignments r, [])"
    by blast
  from distribute_spec[OF d] have r: "map ra_room ras = rooms"
    "mset (concat (map ra_students ras)) = mset ps" by simp_all
  from assign_rooms_spec[OF a] have "assign_rooms_post ras (assignments r) []" by simp
  then show ?thesis using r ps by auto
qed

lemma room_ids_of: "map ra_room ras = rooms \<Longrightarrow> map (\<lambda>ra. room_id (ra_room ra)) ras = map room_id rooms"
  by auto

text \<open>
  C1 (amended): for every input whose rooms have pairwise distinct \<open>room_id\<close>s, if
  \<open>schedule\<close> returns a result with \<open>success = true\<close>, no two assignments of the result
  share \<open>room_id\<close> and \<open>bench_number\<close> while their students have the same subject.
\<close>

theorem bench_constraint_on_success:
  assumes "schedule students rooms opts = Returns r" "success r"
    and "distinct (map room_id rooms)"
  shows "distinct (map bench_subject_of (assignments r))"
proof -
  from success_run[OF assms(1,2)] obtain ras where
    r: "map ra_room ras = rooms" and p: "assign_rooms_post ras (assignments r) []" by blast
  have d: "distinct (map (\<lambda>ra. room_id (ra_room ra)) ras)"
    using assms(3) room_ids_of[OF r] by simp
  have "distinct (map (\<lambda>a. (a_room_id a, bench_number a, subject (a_student a))) (assignments r))"
    using p d unfolding assign_rooms_post_def by blast
  moreover have "bench_subject_of = (\<lambda>a. (a_room_id a, bench_number a, subject (a_student a)))"
    by (intro ext) (simp add: bench_subject_of_def)
  ultimately show ?thesis by simp
qed

theorem bench_constraint_witness:
  "result_success (schedule sampleStudents sampleRooms default_options)
   \<and> distinct (map room_id sampleRooms)
   \<and> distinct (map bench_subject_of
        (result_assignments (schedule sampleStudents sampleRooms default_options)))"
proof -
  have s: "result_success (schedule sampleStudents sampleRooms default_options)" by code_simp
  then obtain r where r: "schedule sampleStudents sampleRooms default_options = Returns r"
    and sr: "success r"
    by (auto simp: result_success_def split: outcome.splits)
  have d: "distinct (map room_id sampleRooms)" by code_simp
  show ?thesis using bench_constraint_on_success[OF r sr d] s d
    by (simp add: r result_assignments_def)
qed

text \<open>
  C1 (as stated, false): two rooms that share the id \<open>R1\<close> each seat an \<open>A\<close> and a \<open>B\<close>
  student on their bench 1; the run succeeds, and the result holds two assignments with
  \<open>room_id = R1\<close>, \<open>bench_number = 1\<close> and subject \<open>A\<close>.
\<close>

theorem bench_constraint_same_room_id:
  "result_success (schedule four_students same_id_rooms default_options)
   \<and> map bench_subject_of (result_assignments (schedule four_students same_id_rooms default_options))
       = [(''R1'', 1, ''A''), (''R1'', 1, ''B''), (''R1'', 1, ''A''), (''R1'', 1, ''B'')]
   \<and> \<not> distinct (map bench_subject_of
         (result_assignments (schedule four_students same_id_rooms default_options)))"
  by code_simp

text \<open>
  C2 (amended): for every input whose rooms have pairwise distinct \<open>room_id\<close>s, if
  \<open>schedule\<close> returns \<open>success = true\<close> then the assignments hold each input student
  exactly once (so there are as many assignments as students) and no
  (\<open>room_id\<close>, \<open>bench_number\<close>, \<open>position\<close>) triple occurs twice. The count holds
  without the condition on the ids.
\<close>

theorem conservation_on_success:
  assumes "schedule students rooms opts = Returns r" "success r"
  shows "length (assignments r) = length students
     \<and> mset (map a_student (assignments r)) = mset students
     \<and> (distinct (map room_id rooms) \<longrightarrow> distinct (map seat_of (assignments r)))"
proof -
  from success_run[OF assms(1,2)] obtain ras where
    r: "map ra_room ras = rooms" and m: "mset (concat (map ra_students ras)) = mset students"
    and p: "assign_rooms_post ras (assignments r) []" by blast
  have ms: "mset (map a_student (assignments r)) = mset students"
    using p m unfolding assign_rooms_post_def by simp
  then have "size (mset (map a_student (assignments r))) = size (mset students)" by simp
  then have len: "length (assignments r) = length students" by simp
  have so: "seat_of = (\<lambda>a. (a_room_id a, bench_number a, position a))"
    by (intro ext) (simp add: seat_of_def)
  have "distinct (map room_id rooms) \<longrightarrow> distinct (map seat_of (assignments r))"
    using p room_ids_of[OF r] unfolding assign_rooms_post_def so by simp
  then show ?thesis using len ms by simp
qed

theorem conservation_witness:
  "result_success (schedule sampleStudents sampleRooms default_options)
   \<and> distinct (map room_id sampleRooms)
   \<and> length (result_assignments (schedule sampleStudents sampleRooms default_options)) = 8
   \<and> length sampleStudents = 8
   \<and> distinct (map seat_of
        (result_assignments (schedule sampleStudents sampleRooms default_options)))"
proof -
  have s: "result_success (schedule sampleStudents sampleRooms default_options)" by code_simp
  then obtain r where r: "schedule sampleStudents sampleRooms default_options = Returns r"
    and sr: "success r"
    by (auto simp: result_success_def split: outcome.splits)
  have d: "distinct (map room_id sampleRooms)" by code_simp
  have l: "length sampleStudents = 8" by code_simp
  show ?thesis using conservation_on_success[OF r sr] s d l
    by (simp add: r result_assignments_def)
qed

text \<open>
  C2 (as stated, false): with the two rooms that share the id \<open>R1\<close> the run succeeds and
  the triple (\<open>R1\<close>, 1, \<open>left\<close>) occurs twice among the assignments.
\<close>

theorem seat_repeats_same_room_id:
  "result_success (schedule four_students same_id_rooms default_options)
   \<and> map seat_of (result_assignments (schedule four_students same_id_rooms default_options))
       = [(''R1'', 1, ''left''), (''R1'', 1, ''right''), (''R1'', 1, ''left''), (''R1'', 1, ''right'')]
   \<and> \<not> distinct (map seat_of
         (result_assignments (schedule four_students same_id_rooms default_options)))"
  by code_simp

section \<open>Capacity: no overflow, and termination of the round-robin loop\<close>






text \<open>
  C10: for rooms with positive integer dimensions and no more students than the total
  capacity (the capacity check lets the run continue), the round-robin loop, run on what
  the preferred-room pass leaves, returns: every run of the inner \<open>while\<close> loop ends.
\<close>

theorem round_robin_terminates:
  assumes "list_all well_formed_room rooms"
    and "\<not> js_gt (Some (int (length students))) (totalCapacity rooms)"
  shows "\<exists>ras. round_robin (snd (preferred_pass students (init_roomAssignments rooms) []))
                  (fst (preferred_pass students (init_roomAssignments rooms) [])) 0 = Returns ras"
proof -
  from distribute_returns[OF assms(2)] obtain ras where "distribute students rooms = Returns ras"
    by blast
  then show ?thesis by (auto simp: distribute_def split: prod.splits)
qed

theorem round_robin_terminates_witness:
  "list_all well_formed_room one_seat_rooms
   \<and> \<not> js_gt (Some (int (length three_students))) (totalCapacity one_seat_rooms)
   \<and> (\<exists>ras. round_robin (snd (preferred_pass three_students (init_roomAssignments one_seat_rooms) []))
                  (fst (preferred_pass three_students (init_roomAssignments one_seat_rooms) [])) 0 = Returns ras)
   \<and> snd (preferred_pass three_students (init_roomAssignments one_seat_rooms) []) = three_students
   \<and> map (\<lambda>ra. map roll (ra_students ra))
        (allocation_of (distribute (take 2 three_students) one_seat_rooms)) = [[''1''], [''2'']]
   \<and> ra_full (allocation_of (distribute (take 2 three_students) one_seat_rooms) ! 0)
   \<and> skip_full (allocation_of (distribute (take 2 three_students) one_seat_rooms)) 0 = Some 1
   \<and> map (\<lambda>ra. map roll (ra_students ra))
        (allocation_of (distribute three_students one_seat_rooms)) = [[''1''], [''2'', ''3'']]"
proof -
  have h1: "list_all well_formed_room one_seat_rooms" by code_simp
  have h2: "\<not> js_gt (Some (int (length three_students))) (totalCapacity one_seat_rooms)" by code_simp
  have e1: "snd (preferred_pass three_students (init_roomAssignments one_seat_rooms) []) = three_students"
    by code_simp
  have e2: "map (\<lambda>ra. map roll (ra_students ra))
        (allocation_of (distribute (take 2 three_students) one_seat_rooms)) = [[''1''], [''2'']]"
    by code_simp
  have e3: "ra_full (allocation_of (distribute (take 2 three_students) one_seat_rooms) ! 0)"
    by code_simp
  have e4: "skip_full (allocation_of (distribute (take 2 three_students) one_seat_rooms)) 0 = Some 1"
    by code_simp
  have e5: "map (\<lambda>ra. map roll (ra_students ra))
        (allocation_of (distribute three_students one_seat_rooms)) = [[''1''], [''2'', ''3'']]"
    by code_simp
  show ?thesis by (intro conjI h1 h2 round_robin_terminates[OF h1 h2] e1 e2 e3 e4 e5)
qed

section \<open>Validation\<close>


lemma duplicate_errors_Nil:
  "duplicate_errors ss seen = [] \<longleftrightarrow> distinct (map roll ss) \<and> roll ` set ss \<inter> seen = {}"
  by (induction ss arbitrary: seen) auto

lemma validateConstraints_Nil:
  "validateConstraints students rooms = [] \<longleftrightarrow>
     students \<noteq> [] \<and> rooms \<noteq> [] \<and> distinct (map roll students)"
  by (simp add: validateConstraints_def duplicate_errors_Nil)

lemma greedy_no_validation:
  assumes "greedyPairScheduler ps rooms = Returns r"
  shows "\<not> list_ex (\<lambda>c. c_type c = Validation) (conflicts (diags r))"
proof -
  from greedy_cases[OF assms] consider
    "r = capacity_result (length ps) (totalCapacity rooms)"
    | "r = infeasible_result (largest_group_size ps) (length ps)"
    | "place_all ps rooms = Returns r" by blast
  then show ?thesis
  proof cases
    case 1
    then show ?thesis by (simp add: capacity_result_def)
  next
    case 2
    then show ?thesis by (simp add: infeasible_result_def infeasible_conflict_def)
  next
    case 3
    from place_all_spec[OF 3] obtain ras where
      "assign_rooms ras [] [] = Returns (assignments r, conflicts (diags r))" by blast
    from assign_rooms_spec[OF this] have "assign_rooms_post ras (assignments r) (conflicts (diags r))"
      by simp
    then have "\<forall>c \<in> set (conflicts (diags r)). c_type c = Constraint \<or> c_type c = Overflow"
      unfolding assign_rooms_post_def by blast
    then show ?thesis unfolding list_ex_iff by auto
  qed
qed

text \<open>
  C6 (amended): \<open>schedule\<close> reports a validation-type failure exactly when the student
  list is empty, the room list is empty or two students share a roll. Room fields are
  never inspected by the validation: a room whose \<open>num_benches\<close> or \<open>seats_per_bench\<close>
  is missing does not by itself produce a validation conflict.
\<close>

theorem validation_failure_iff:
  "(\<exists>r. schedule students rooms opts = Returns r
        \<and> list_ex (\<lambda>c. c_type c = Validation) (conflicts (diags r)))
   \<longleftrightarrow> (students = [] \<or> rooms = [] \<or> \<not> distinct (map roll students))"
proof
  assume "\<exists>r. schedule students rooms opts = Returns r
        \<and> list_ex (\<lambda>c. c_type c = Validation) (conflicts (diags r))"
  then obtain r where r: "schedule students rooms opts = Returns r"
    and v: "list_ex (\<lambda>c. c_type c = Validation) (conflicts (diags r))" by blast
  from schedule_cases[OF r] v greedy_no_validation
  have "validateConstraints students rooms \<noteq> []" by blast
  then show "students = [] \<or> rooms = [] \<or> \<not> distinct (map roll students)"
    using validateConstraints_Nil by blast
next
  assume "students = [] \<or> rooms = [] \<or> \<not> distinct (map roll students)"
  then have ne: "validateConstraints students rooms \<noteq> []" using validateConstraints_Nil by blast
  then have "schedule students rooms opts = Returns (validation_result (validateConstraints students rooms))"
    by (simp add: schedule_def)
  moreover have "list_ex (\<lambda>c. c_type c = Validation)
      (conflicts (diags (validation_result (validateConstraints students rooms))))"
    using ne by (cases "validateConstraints students rooms") (simp_all add: validation_result_def)
  ultimately show "\<exists>r. schedule students rooms opts = Returns r
        \<and> list_ex (\<lambda>c. c_type c = Validation) (conflicts (diags r))" by blast
qed

theorem validation_failure_witness:
  "seats_per_bench room_without_seats = None
   \<and> one_student \<noteq> [] \<and> [room_without_seats] \<noteq> [] \<and> distinct (map roll one_student)
   \<and> \<not> (\<exists>r. schedule one_student [room_without_seats] default_options = Returns r
        \<and> list_ex (\<lambda>c. c_type c = Validation) (conflicts (diags r)))"
proof -
  have h: "seats_per_bench room_without_seats = None" "one_student \<noteq> []"
    "distinct (map roll one_student)" by code_simp+
  show ?thesis
    using validation_failure_iff[of one_student "[room_without_seats]" default_options] h
    by simp
qed

text \<open>
  C6 (as stated, false): a room with no \<open>seats_per_bench\<close> has capacity \<open>NaN\<close>, the
  capacity comparisons are false, and the run seats the student and succeeds with no
  conflict at all; a room with no \<open>num_benches\<close> yields an \<open>overflow\<close> conflict. Neither
  reports a validation failure.
\<close>

theorem malformed_room_not_validated:
  "seats_per_bench room_without_seats = None
   \<and> result_success (schedule one_student [room_without_seats] default_options)
   \<and> result_conflicts (schedule one_student [room_without_seats] default_options) = []
   \<and> map seat_of (result_assignments (schedule one_student [room_without_seats] default_options))
       = [(''R1'', 1, ''left'')]
   \<and> num_benches room_without_benches = None
   \<and> map c_type (result_conflicts (schedule one_student [room_without_benches] default_options))
       = [Overflow]"
  by code_simp

section \<open>The preferred-room pass\<close>










section \<open>Roll ranges: the code against the specification's wording\<close>
















section \<open>Roll ranges in the room summaries\<close>








end
